theory Spec2Isabelle
  imports Main "HOL-Library.Word" "HOL-Library.Sublist" "HOL-Library.List_Lexorder"
begin

unbundle bit_operations_syntax

section \<open>Bytes, Python failures and Python indexing\<close>

text \<open>
  The parser in \<^verbatim>\<open>idb/fileformat.py\<close> works on Python \<^verbatim>\<open>bytes\<close> and unbounded
  integers. A byte is an 8-bit word, a byte string a list of them; byte strings are
  compared as Python compares them, lexicographically by unsigned byte value.
  Every exception the source can raise is a value of \<open>error\<close>; a fallible operation
  returns \<open>error + 'a\<close> with \<open>Inl\<close> for the raised exception.
\<close>

type_synonym byte = "8 word"
type_synonym bytes = "byte list"

datatype error =
    KeyError
  | IndexError
  | ValueError
  | AttributeError
  | NotImplementedError
  | StructError
  | ParseError

text \<open>
  \<^verbatim>\<open>xs[i]\<close> on a Python list: a negative index counts from the end, and an index
  outside \<open>[-len, len)\<close> raises \<^verbatim>\<open>IndexError\<close>.
\<close>

definition py_index :: "'a list \<Rightarrow> int \<Rightarrow> error + 'a" where
  "py_index xs i =
     (let n = int (length xs); j = (if i < 0 then i + n else i)
      in if 0 \<le> j \<and> j < n then Inr (xs ! nat j) else Inl IndexError)"

section \<open>The flag word\<close>

type_synonym flags = "32 word"

definition MS_VAL :: flags where "MS_VAL = 0x000000FF"
definition FF_IVL :: flags where "FF_IVL = 0x00000100"
definition MS_CLS :: flags where "MS_CLS = 0x00000600"
definition FF_CODE :: flags where "FF_CODE = 0x00000600"
definition FF_DATA :: flags where "FF_DATA = 0x00000400"

definition hasValue :: "flags \<Rightarrow> bool" where
  "hasValue fl = (fl AND FF_IVL > 0)"

definition isCode :: "flags \<Rightarrow> bool" where
  "isCode fl = (fl AND MS_CLS = FF_CODE)"

definition isData :: "flags \<Rightarrow> bool" where
  "isData fl = (fl AND MS_CLS = FF_DATA)"

definition isHead :: "flags \<Rightarrow> bool" where
  "isHead fl = (isCode fl \<or> isData fl)"

section \<open>The flags map (ID1)\<close>

text \<open>
  \<^verbatim>\<open>SegmentBounds\<close> holds the two words \<^verbatim>\<open>start\<close> and \<^verbatim>\<open>end\<close> of a segment
  (\<open>end\<close> is reserved in Isabelle, hence the prefix); \<^verbatim>\<open>SegmentDescriptor\<close> is the
  named tuple \<^verbatim>\<open>(bounds, offset)\<close>. Addresses and offsets are Python integers.
\<close>

record SegmentBounds =
  b_start :: int
  b_end :: int

record SegmentDescriptor =
  bounds :: SegmentBounds
  offset :: int

text \<open>
  \<^verbatim>\<open>ID1.pcb_segment_count\<close> is the parse callback of the field \<^verbatim>\<open>segment_count\<close>,
  which comes before \<^verbatim>\<open>_segments\<close> in the structure. It first creates
  \<^verbatim>\<open>segment_count\<close> elements of \<^verbatim>\<open>_segments\<close> with \<^verbatim>\<open>vsAddElements\<close>; none of them is
  parsed yet, so \<^verbatim>\<open>start\<close> and \<^verbatim>\<open>end\<close> of each are still 0. Its loop then runs over
  these elements:
  \<^verbatim>\<open>offset = 0; for i in range(segment_count): segment = _segments[i];
  offset += 4 * (segment.end - segment.start); segments.append(SegmentDescriptor(segment, offset))\<close>.
  \<open>segment_offsets\<close> is this loop, giving the offset recorded in each iteration (the
  running offset is increased before it is recorded). Each descriptor holds the element
  itself, which the parse of \<^verbatim>\<open>_segments\<close> fills in afterwards: once the section is
  parsed, descriptor \<open>i\<close> has the parsed bounds of segment \<open>i\<close> and the offset the
  callback recorded.
\<close>

definition unparsed :: SegmentBounds where
  "unparsed = \<lparr>b_start = 0, b_end = 0\<rparr>"

fun segment_offsets :: "int \<Rightarrow> SegmentBounds list \<Rightarrow> int list" where
  "segment_offsets off [] = []"
| "segment_offsets off (segment # rest) =
     (let off' = off + 4 * (b_end segment - b_start segment)
      in off' # segment_offsets off' rest)"

definition pcb_segment_count :: "nat \<Rightarrow> int list" where
  "pcb_segment_count segment_count = segment_offsets 0 (replicate segment_count unparsed)"

definition parsed_segments :: "SegmentBounds list \<Rightarrow> SegmentDescriptor list" where
  "parsed_segments bs =
     map2 (\<lambda>b off. \<lparr>bounds = b, offset = off\<rparr>) bs (pcb_segment_count (length bs))"

record ID1 =
  id1_signature :: bytes
  id1_unk04 :: int
  id1_unk0C :: int
  segments :: "SegmentDescriptor list"
  buffer :: bytes

definition contains :: "SegmentDescriptor \<Rightarrow> int \<Rightarrow> bool" where
  "contains segment ea = (b_start (bounds segment) \<le> ea \<and> ea < b_end (bounds segment))"

fun get_segment_in :: "SegmentDescriptor list \<Rightarrow> int \<Rightarrow> error + SegmentDescriptor" where
  "get_segment_in [] ea = Inl KeyError"
| "get_segment_in (segment # rest) ea =
     (if contains segment ea then Inr segment else get_segment_in rest ea)"

definition get_segment :: "ID1 \<Rightarrow> int \<Rightarrow> error + SegmentDescriptor" where
  "get_segment id1 ea = get_segment_in (segments id1) ea"

text \<open>
  \<^verbatim>\<open>ID1.get_next_segment\<close>: the scan carries the index of \<^verbatim>\<open>enumerate\<close>; the guard
  \<^verbatim>\<open>i == len(self.segments)\<close> is kept as written, and \<^verbatim>\<open>self.segments[i + 1]\<close> is
  Python list indexing.
\<close>

fun next_segment_scan ::
  "SegmentDescriptor list \<Rightarrow> nat \<Rightarrow> SegmentDescriptor list \<Rightarrow> int \<Rightarrow> error + SegmentDescriptor" where
  "next_segment_scan all i [] ea = Inl KeyError"
| "next_segment_scan all i (segment # rest) ea =
     (if contains segment ea
      then (if i = length all then Inl IndexError else py_index all (int i + 1))
      else next_segment_scan all (Suc i) rest ea)"

definition get_next_segment :: "ID1 \<Rightarrow> int \<Rightarrow> error + SegmentDescriptor" where
  "get_next_segment id1 ea = next_segment_scan (segments id1) 0 (segments id1) ea"

text \<open>
  \<^verbatim>\<open>struct.unpack_from('<I', buffer, offset)\<close>: a negative offset counts from the end
  of the buffer; four bytes must be available at the resulting position, else
  \<^verbatim>\<open>struct.error\<close>. The four bytes are read least significant first.
\<close>

primrec le_nat :: "bytes \<Rightarrow> nat" where
  "le_nat [] = 0"
| "le_nat (b # bs) = unat b + 256 * le_nat bs"

definition unpack_from_u32 :: "bytes \<Rightarrow> int \<Rightarrow> error + flags" where
  "unpack_from_u32 buf off =
     (let n = int (length buf); pos = (if off < 0 then off + n else off)
      in if pos < 0 \<or> n - pos < 4 then Inl StructError
         else Inr (word_of_nat (le_nat (take 4 (drop (nat pos) buf)))))"

definition get_flags :: "ID1 \<Rightarrow> int \<Rightarrow> error + flags" where
  "get_flags id1 ea =
     (case get_segment id1 ea of
        Inl e \<Rightarrow> Inl e
      | Inr seg \<Rightarrow> unpack_from_u32 (buffer id1) (offset seg + 4 * (ea - b_start (bounds seg))))"

section \<open>B-tree pages\<close>

text \<open>
  The fixed-layout fields of a page are parsed by the \<^verbatim>\<open>vstruct\<close> library, which is
  not part of the repository. A page is therefore taken as what that parse yields:
  \<^verbatim>\<open>ppointer\<close>, \<^verbatim>\<open>entry_count\<close>, and for the entry area \<^verbatim>\<open>contents\<close> the list of
  its parseable entry slots. Slot \<open>i\<close> gives what \<^verbatim>\<open>Page._load_entries\<close> parses in
  iteration \<open>i\<close>: the six-byte pointer at \<^verbatim>\<open>i * SIZEOF_ENTRY\<close>, read as a
  \<^verbatim>\<open>BranchEntryPointer\<close> (\<open>ptr_page\<close>) or as a \<^verbatim>\<open>LeafEntryPointer\<close>
  (\<open>ptr_common_prefix\<close>), and the body found at the pointer's offset
  (\<open>body_key\<close> is \<^verbatim>\<open>BranchEntry.key\<close> or \<^verbatim>\<open>LeafEntry._key\<close>).
\<close>

record slot =
  ptr_page :: nat
  ptr_common_prefix :: nat
  body_key :: bytes
  body_value :: bytes

record Page =
  ppointer :: nat
  entry_count :: nat
  contents :: "slot list"

text \<open>
  A decoded entry. Both kinds expose \<^verbatim>\<open>key\<close> and \<^verbatim>\<open>value\<close>; only a
  \<^verbatim>\<open>BranchEntry\<close> has the attribute \<^verbatim>\<open>page\<close>.
\<close>

datatype Entry = LeafEntry bytes bytes | BranchEntry nat bytes bytes

fun entry_key :: "Entry \<Rightarrow> bytes" where
  "entry_key (LeafEntry k v) = k"
| "entry_key (BranchEntry pg k v) = k"

fun entry_value :: "Entry \<Rightarrow> bytes" where
  "entry_value (LeafEntry k v) = v"
| "entry_value (BranchEntry pg k v) = v"

fun entry_page :: "Entry \<Rightarrow> error + nat" where
  "entry_page (LeafEntry k v) = Inl AttributeError"
| "entry_page (BranchEntry pg k v) = Inr pg"

definition is_leaf :: "Page \<Rightarrow> bool" where
  "is_leaf page = (ppointer page = 0)"

text \<open>
  \<^verbatim>\<open>Page._load_entries\<close>: the loop threads \<^verbatim>\<open>key\<close>, the key of the entry decoded
  before. A leaf entry's key is \<^verbatim>\<open>pkey[:common_prefix] + _key\<close> (\<^verbatim>\<open>LeafEntry.pcb__key\<close>);
  a Python slice never fails, so a \<open>common_prefix\<close> beyond the previous key takes
  all of it. The list \<^verbatim>\<open>_entries\<close> is a per-object memo of this decoding of
  immutable bytes and is not kept as state. An \<open>entry_count\<close> beyond the parseable
  slots makes the parse fail.
\<close>

fun load_from :: "bool \<Rightarrow> bytes \<Rightarrow> slot list \<Rightarrow> Entry list" where
  "load_from leaf pkey [] = []"
| "load_from leaf pkey (s # ss) =
     (let e = (if leaf then LeafEntry (take (ptr_common_prefix s) pkey @ body_key s) (body_value s)
               else BranchEntry (ptr_page s) (body_key s) (body_value s))
      in e # load_from leaf (entry_key e) ss)"

definition load_entries :: "Page \<Rightarrow> error + Entry list" where
  "load_entries page =
     (if entry_count page \<le> length (contents page)
      then Inr (load_from (is_leaf page) [] (take (entry_count page) (contents page)))
      else Inl ParseError)"

definition get_entries :: "Page \<Rightarrow> error + Entry list" where
  "get_entries page = load_entries page"

text \<open>
  \<^verbatim>\<open>Page.get_entry\<close>: only \<^verbatim>\<open>entry_number >= len(self._entries)\<close> is guarded; the
  read itself is Python list indexing.
\<close>

definition get_entry :: "Page \<Rightarrow> int \<Rightarrow> error + Entry" where
  "get_entry page n =
     (case load_entries page of
        Inl e \<Rightarrow> Inl e
      | Inr es \<Rightarrow> if n \<ge> int (length es) then Inl KeyError else py_index es n)"

text \<open>
  \<^verbatim>\<open>Page.validate\<close>: \<^verbatim>\<open>last\<close> starts as \<^verbatim>\<open>None\<close>; an iteration with
  \<^verbatim>\<open>last is None\<close> does \<^verbatim>\<open>continue\<close>, otherwise compares and then assigns
  \<^verbatim>\<open>last = entry\<close> (\<open>prev\<close> here, \<open>last\<close> being a list function of HOL).
\<close>

fun validate_loop :: "Entry option \<Rightarrow> Entry list \<Rightarrow> error + bool" where
  "validate_loop prev [] = Inr True"
| "validate_loop prev (e # es) =
     (case prev of
        None \<Rightarrow> validate_loop prev es
      | Some l \<Rightarrow> if entry_key l \<ge> entry_key e then Inl ValueError
                  else validate_loop (Some e) es)"

definition Page_validate :: "Page \<Rightarrow> error + bool" where
  "Page_validate page =
     (case get_entries page of Inl e \<Rightarrow> Inl e | Inr es \<Rightarrow> validate_loop None es)"

section \<open>The B-tree index (ID0) and its cursor\<close>

text \<open>
  \<^verbatim>\<open>ID0.get_page\<close> slices \<^verbatim>\<open>page_size\<close> bytes out of the buffer and lets \<^verbatim>\<open>vstruct\<close>
  parse them; \<open>pages\<close> is the outcome of that parse per page number, \<open>None\<close> where
  it fails.
\<close>

record ID0 =
  id0_signature :: bytes
  root_page :: nat
  record_count :: nat
  pages :: "nat \<Rightarrow> Page option"

definition get_page :: "ID0 \<Rightarrow> nat \<Rightarrow> error + Page" where
  "get_page idx page_number =
     (case pages idx page_number of None \<Rightarrow> Inl ParseError | Some page \<Rightarrow> Inr page)"

record Cursor =
  path :: "Page list"
  entry :: Entry
  entry_number :: int

text \<open>\<^verbatim>\<open>Cursor.find_index\<close>, one scan for a leaf and one for a branch.\<close>

fun find_index_leaf :: "nat \<Rightarrow> Entry list \<Rightarrow> bytes \<Rightarrow> error + nat" where
  "find_index_leaf i [] k = Inl KeyError"
| "find_index_leaf i (e # es) k =
     (if k = entry_key e then Inr i else find_index_leaf (Suc i) es k)"

fun find_index_branch :: "nat \<Rightarrow> Entry list \<Rightarrow> bytes \<Rightarrow> error + nat" where
  "find_index_branch i [] k = Inl KeyError"
| "find_index_branch i (e # es) k =
     (if k = entry_key e then Inr i
      else if k < entry_key e then Inr i
      else find_index_branch (Suc i) es k)"

definition find_index :: "Page \<Rightarrow> bytes \<Rightarrow> error + nat" where
  "find_index page k =
     (if is_leaf page
      then (case get_entries page of Inl e \<Rightarrow> Inl e | Inr es \<Rightarrow> find_index_leaf 0 es k)
      else (case get_entries page of Inl e \<Rightarrow> Inl e | Inr es \<Rightarrow> find_index_branch 0 es k))"

text \<open>
  One page of a search either ends it at an entry or names the page to descend into.
\<close>

datatype step = Found Entry int | Descend nat

text \<open>
  The body of \<^verbatim>\<open>ExactMatchStrategy._find\<close> for one page. Only a \<^verbatim>\<open>KeyError\<close> of
  \<^verbatim>\<open>find_index\<close> is caught, setting \<^verbatim>\<open>is_largest\<close>; the test
  \<^verbatim>\<open>entry_number == 0\<close> comes before the test of \<^verbatim>\<open>is_largest\<close>, as in the source.
\<close>

definition locate :: "Page \<Rightarrow> bytes \<Rightarrow> error + (bool \<times> int)" where
  "locate page k =
     (case find_index page k of
        Inl KeyError \<Rightarrow> Inr (True, int (entry_count page) - 1)
      | Inl e \<Rightarrow> Inl e
      | Inr i \<Rightarrow> Inr (False, int i))"

definition entry_page_at :: "Page \<Rightarrow> int \<Rightarrow> error + step" where
  "entry_page_at page n =
     (case get_entry page n of
        Inl e \<Rightarrow> Inl e
      | Inr l \<Rightarrow> (case entry_page l of Inl e \<Rightarrow> Inl e | Inr pg \<Rightarrow> Inr (Descend pg)))"

definition exact_step :: "Page \<Rightarrow> bytes \<Rightarrow> error + step" where
  "exact_step page k =
     (case locate page k of
        Inl e \<Rightarrow> Inl e
      | Inr (is_largest, n) \<Rightarrow>
          (case get_entry page n of
             Inl e \<Rightarrow> Inl e
           | Inr ent \<Rightarrow>
               if entry_key ent = k then Inr (Found ent n)
               else if is_leaf page then Inl KeyError
               else if n = 0 then Inr (Descend (ppointer page))
               else if is_largest then entry_page_at page (int (entry_count page) - 1)
               else entry_page_at page (n - 1)))"

text \<open>
  The body of \<^verbatim>\<open>PrefixMatchStrategy._find\<close> for one page: the leaf scan, and the
  branch scan that tracks \<^verbatim>\<open>next_page\<close>.
\<close>

fun prefix_leaf_scan :: "nat \<Rightarrow> Entry list \<Rightarrow> bytes \<Rightarrow> error + step" where
  "prefix_leaf_scan i [] k = Inl KeyError"
| "prefix_leaf_scan i (e # es) k =
     (if prefix k (entry_key e) then Inr (Found e (int i))
      else if entry_key e > k then Inl KeyError
      else prefix_leaf_scan (Suc i) es k)"

fun prefix_branch_scan :: "nat \<Rightarrow> nat \<Rightarrow> Entry list \<Rightarrow> bytes \<Rightarrow> error + step" where
  "prefix_branch_scan i next_page [] k = Inr (Descend next_page)"
| "prefix_branch_scan i next_page (e # es) k =
     (if entry_key e = k then Inr (Found e (int i))
      else if prefix k (entry_key e) then Inr (Descend next_page)
      else if entry_key e > k then Inr (Descend next_page)
      else (case entry_page e of
              Inl err \<Rightarrow> Inl err
            | Inr pg \<Rightarrow> prefix_branch_scan (Suc i) pg es k))"

definition prefix_step :: "Page \<Rightarrow> bytes \<Rightarrow> error + step" where
  "prefix_step page k =
     (if is_leaf page
      then (case get_entries page of Inl e \<Rightarrow> Inl e | Inr es \<Rightarrow> prefix_leaf_scan 0 es k)
      else (case get_entries page of
              Inl e \<Rightarrow> Inl e
            | Inr es \<Rightarrow> prefix_branch_scan 0 (ppointer page) es k))"

text \<open>
  The recursion of \<^verbatim>\<open>_find\<close>, the same in both strategies: fetch the page, append it
  to the cursor's path, run the strategy's step and either stop or recurse. Page
  pointers may form a cycle, so the descent need not return: \<open>None\<close> is
  non-termination.
\<close>

datatype strategy = EXACT_MATCH | PREFIX_MATCH

fun strategy_step :: "strategy \<Rightarrow> Page \<Rightarrow> bytes \<Rightarrow> error + step" where
  "strategy_step EXACT_MATCH page k = exact_step page k"
| "strategy_step PREFIX_MATCH page k = prefix_step page k"

partial_function (option) find_from ::
  "strategy \<Rightarrow> ID0 \<Rightarrow> Page list \<Rightarrow> nat \<Rightarrow> bytes \<Rightarrow> (error + Cursor) option" where
  "find_from s idx pth page_number k =
     (case get_page idx page_number of
        Inl e \<Rightarrow> Some (Inl e)
      | Inr page \<Rightarrow>
          (case strategy_step s page k of
             Inl e \<Rightarrow> Some (Inl e)
           | Inr (Found ent n) \<Rightarrow>
               Some (Inr \<lparr>path = pth @ [page], entry = ent, entry_number = n\<rparr>)
           | Inr (Descend next_page_number) \<Rightarrow>
               find_from s idx (pth @ [page]) next_page_number k))"

definition find :: "ID0 \<Rightarrow> bytes \<Rightarrow> strategy \<Rightarrow> (error + Cursor) option" where
  "find idx k s = find_from s idx [] (root_page idx) k"

definition find_prefix :: "ID0 \<Rightarrow> bytes \<Rightarrow> (error + Cursor) option" where
  "find_prefix idx k = find idx k PREFIX_MATCH"

text \<open>
  \<^verbatim>\<open>Cursor.next\<close>. The \<^verbatim>\<open>while True\<close> loop of the leaf case pops the path until
  \<^verbatim>\<open>find_index\<close> succeeds on an ancestor (a \<^verbatim>\<open>KeyError\<close> continues the loop, any
  other failure propagates) and raises \<^verbatim>\<open>IndexError\<close> when at most one page is left.
\<close>

function ascend :: "Page list \<Rightarrow> bytes \<Rightarrow> error + (Page list \<times> nat)" where
  "ascend pth start_key =
     (if length pth \<le> 1 then Inl IndexError
      else (case find_index (last (butlast pth)) start_key of
              Inl KeyError \<Rightarrow> ascend (butlast pth) start_key
            | Inl e \<Rightarrow> Inl e
            | Inr i \<Rightarrow> Inr (butlast pth, i)))"
  by pat_completeness auto
termination
  by (relation "measure (\<lambda>(pth, k). length pth)") auto

declare ascend.simps [simp del]

text \<open>
  The \<^verbatim>\<open>while not next_page.is_leaf()\<close> loop of the branch case follows \<^verbatim>\<open>ppointer\<close>
  down to a leaf, appending each branch page to the path.
\<close>

partial_function (option) descend_min ::
  "ID0 \<Rightarrow> Page list \<Rightarrow> Page \<Rightarrow> (error + (Page list \<times> Page)) option" where
  "descend_min idx pth next_page =
     (if is_leaf next_page then Some (Inr (pth, next_page))
      else (case get_page idx (ppointer next_page) of
              Inl e \<Rightarrow> Some (Inl e)
            | Inr below \<Rightarrow> descend_min idx (pth @ [next_page]) below))"

text \<open>
  The three cases of \<^verbatim>\<open>Cursor.next\<close>: \<open>leave\<close> is the leaf case at the last entry,
  \<open>enter\<close> the branch case after \<^verbatim>\<open>self.index.get_page(self.entry.page)\<close>.
\<close>

definition leave :: "Page list \<Rightarrow> bytes \<Rightarrow> (error + Cursor) option" where
  "leave pth start_key =
     (case ascend pth start_key of
        Inl e \<Rightarrow> Some (Inl e)
      | Inr (pth', i) \<Rightarrow>
          (case get_entry (last pth') (int i) of
             Inl e \<Rightarrow> Some (Inl e)
           | Inr ent \<Rightarrow> Some (Inr \<lparr>path = pth', entry = ent, entry_number = int i\<rparr>)))"

definition enter :: "ID0 \<Rightarrow> Page list \<Rightarrow> Page \<Rightarrow> (error + Cursor) option" where
  "enter idx pth next_page =
     (case descend_min idx pth next_page of
        None \<Rightarrow> None
      | Some (Inl e) \<Rightarrow> Some (Inl e)
      | Some (Inr (pth', lf)) \<Rightarrow>
          (case get_entry lf 0 of
             Inl e \<Rightarrow> Some (Inl e)
           | Inr ent \<Rightarrow> Some (Inr \<lparr>path = pth' @ [lf], entry = ent, entry_number = 0\<rparr>)))"

definition cursor_next :: "ID0 \<Rightarrow> Cursor \<Rightarrow> (error + Cursor) option" where
  "cursor_next idx c =
     (case py_index (path c) (- 1) of
        Inl e \<Rightarrow> Some (Inl e)
      | Inr current_page \<Rightarrow>
          if is_leaf current_page then
            (if entry_number c = int (entry_count current_page) - 1
             then leave (path c) (entry_key (entry c))
             else
               (case get_entry current_page (entry_number c + 1) of
                  Inl e \<Rightarrow> Some (Inl e)
                | Inr ent \<Rightarrow>
                    Some (Inr \<lparr>path = path c, entry = ent, entry_number = entry_number c + 1\<rparr>)))
          else
            (case entry_page (entry c) of
               Inl e \<Rightarrow> Some (Inl e)
             | Inr pg \<Rightarrow>
                 (case get_page idx pg of
                    Inl e \<Rightarrow> Some (Inl e)
                  | Inr next_page \<Rightarrow> enter idx (path c) next_page)))"

text \<open>Calling \<^verbatim>\<open>next()\<close> \<open>n\<close> times; the first failure ends the run.\<close>

fun next_n :: "ID0 \<Rightarrow> nat \<Rightarrow> Cursor \<Rightarrow> (error + Cursor) option" where
  "next_n idx 0 c = Some (Inr c)"
| "next_n idx (Suc n) c =
     (case cursor_next idx c of
        None \<Rightarrow> None
      | Some (Inl e) \<Rightarrow> Some (Inl e)
      | Some (Inr c') \<Rightarrow> next_n idx n c')"

subsection \<open>Well-formed trees\<close>

text \<open>
  What the claims call a well-formed B-tree, read off the index itself. The page at
  number \<open>n\<close> roots a tree of height at most \<open>h\<close> when it parses, holds at least one
  entry, all of which decode, and, if it is a branch, \<^verbatim>\<open>ppointer\<close> and the \<^verbatim>\<open>page\<close> of
  every entry again root such trees of height at most \<open>h - 1\<close>. \<open>inorder\<close> lists the
  entries of such a tree in the order of the diagram in the docstring of \<^verbatim>\<open>Page\<close>: the
  subtree under \<^verbatim>\<open>ppointer\<close>, then each entry followed by the subtree under its
  \<^verbatim>\<open>page\<close>. The tree is well formed when the keys in this order are strictly ascending
  and \<^verbatim>\<open>record_count\<close> is their number.
\<close>

definition entries_of :: "Page \<Rightarrow> Entry list" where
  "entries_of page = (case load_entries page of Inl e \<Rightarrow> [] | Inr es \<Rightarrow> es)"

fun the_page :: "Entry \<Rightarrow> nat" where
  "the_page (BranchEntry pg k v) = pg"
| "the_page (LeafEntry k v) = 0"

fun subtree_ok :: "ID0 \<Rightarrow> nat \<Rightarrow> nat \<Rightarrow> bool" where
  "subtree_ok idx 0 n = False"
| "subtree_ok idx (Suc h) n =
     (case pages idx n of
        None \<Rightarrow> False
      | Some page \<Rightarrow>
          0 < entry_count page \<and> entry_count page \<le> length (contents page)
          \<and> (is_leaf page
              \<or> subtree_ok idx h (ppointer page)
                \<and> list_all (\<lambda>e. subtree_ok idx h (the_page e)) (entries_of page)))"

fun inorder :: "ID0 \<Rightarrow> nat \<Rightarrow> nat \<Rightarrow> Entry list" where
  "inorder idx 0 n = []"
| "inorder idx (Suc h) n =
     (case pages idx n of
        None \<Rightarrow> []
      | Some page \<Rightarrow>
          if is_leaf page then entries_of page
          else inorder idx h (ppointer page)
               @ concat (map (\<lambda>e. e # inorder idx h (the_page e)) (entries_of page)))"

definition well_formed :: "ID0 \<Rightarrow> nat \<Rightarrow> bool" where
  "well_formed idx h =
     (subtree_ok idx h (root_page idx)
      \<and> sorted_wrt (<) (map entry_key (inorder idx h (root_page idx)))
      \<and> record_count idx = length (inorder idx h (root_page idx)))"

definition tree_keys :: "ID0 \<Rightarrow> nat \<Rightarrow> bytes list" where
  "tree_keys idx h = map entry_key (inorder idx h (root_page idx))"

text \<open>
  The positions of a tree in the same order, each as the cursor that points at it:
  the path from the root to the page of the entry (\<open>pth\<close> is the path above page \<open>n\<close>),
  the entry and its index in the page.
\<close>

definition at :: "Page list \<Rightarrow> nat \<times> Entry \<Rightarrow> Cursor" where
  "at pth = (\<lambda>(i, e). \<lparr>path = pth, entry = e, entry_number = int i\<rparr>)"

fun cursors :: "ID0 \<Rightarrow> nat \<Rightarrow> Page list \<Rightarrow> nat \<Rightarrow> Cursor list" where
  "cursors idx 0 pth n = []"
| "cursors idx (Suc h) pth n =
     (case pages idx n of
        None \<Rightarrow> []
      | Some page \<Rightarrow>
          if is_leaf page then map (at (pth @ [page])) (enumerate 0 (entries_of page))
          else cursors idx h (pth @ [page]) (ppointer page)
               @ concat (map (\<lambda>ie. at (pth @ [page]) ie
                                    # cursors idx h (pth @ [page]) (the_page (snd ie)))
                           (enumerate 0 (entries_of page))))"

text \<open>
  \<open>steps\<close> is one successful call of \<^verbatim>\<open>next()\<close>. \<open>blocks\<close> names the positions of a
  branch page from its entry \<open>i\<close> on. \<open>covers\<close> is what the traversal proof shows of
  the subtree at page \<open>n\<close>, reached along \<open>pth\<close>: \<^verbatim>\<open>next()\<close> leads from each of its
  positions to the one after it, entering the subtree from above lands on its first
  position, and from its last position \<^verbatim>\<open>next()\<close> is the ascent from the subtree's
  root.
\<close>

abbreviation steps :: "ID0 \<Rightarrow> Cursor \<Rightarrow> Cursor \<Rightarrow> bool" where
  "steps idx c c' \<equiv> cursor_next idx c = Some (Inr c')"

definition blocks :: "ID0 \<Rightarrow> nat \<Rightarrow> Page list \<Rightarrow> nat \<Rightarrow> Entry list \<Rightarrow> Cursor list" where
  "blocks idx h pth i es =
     concat (map (\<lambda>ie. at pth ie # cursors idx h pth (the_page (snd ie))) (enumerate i es))"

definition covers :: "ID0 \<Rightarrow> nat \<Rightarrow> Page list \<Rightarrow> nat \<Rightarrow> Page \<Rightarrow> bool" where
  "covers idx h pth n p =
     (successively (steps idx) (cursors idx h pth n)
      \<and> enter idx pth p = Some (Inr (hd (cursors idx h pth n)))
      \<and> cursor_next idx (last (cursors idx h pth n)) =
          leave (pth @ [p]) (entry_key (entry (last (cursors idx h pth n)))))"

section \<open>The container (IDB)\<close>

record FileHeader =
  fh_signature :: bytes
  offset1 :: int
  offset2 :: int
  fh_sig2 :: int
  fh_version :: int
  offset3 :: int
  offset4 :: int
  offset5 :: int
  offset6 :: int

text \<open>\<^verbatim>\<open>FileHeader.pcb_offset6\<close> collects the six section offsets in order.\<close>

definition offsets :: "FileHeader \<Rightarrow> int list" where
  "offsets h = [offset1 h, offset2 h, offset3 h, offset4 h, offset5 h, offset6 h]"

definition FileHeader_validate :: "FileHeader \<Rightarrow> error + bool" where
  "FileHeader_validate h =
     (if fh_signature h \<noteq> [0x49, 0x44, 0x41, 0x31] then Inl ValueError
      else if fh_sig2 h \<noteq> 0xAABBCCDD then Inl ValueError
      else if fh_version h \<noteq> 0x6 then Inl ValueError
      else Inr True)"

definition ID0_validate :: "ID0 \<Rightarrow> error + bool" where
  "ID0_validate s =
     (if id0_signature s \<noteq> [0x42, 0x2D, 0x74, 0x72, 0x65, 0x65, 0x20, 0x76, 0x32]
      then Inl ValueError else Inr True)"

fun segments_ordered :: "SegmentDescriptor list \<Rightarrow> error + bool" where
  "segments_ordered [] = Inr True"
| "segments_ordered (segment # rest) =
     (if b_start (bounds segment) > b_end (bounds segment) then Inl ValueError
      else segments_ordered rest)"

definition ID1_validate :: "ID1 \<Rightarrow> error + bool" where
  "ID1_validate s =
     (if id1_signature s \<noteq> [0x56, 0x41, 0x2A, 0x00] then Inl ValueError
      else if id1_unk04 s \<noteq> 0x3 then Inl ValueError
      else if id1_unk0C s \<noteq> 0x800 then Inl ValueError
      else segments_ordered (segments s))"

record NAM =
  nam_signature :: bytes
  nam_unk04 :: int
  non_empty :: int
  nam_unk0C :: int
  nam_unk14 :: int

definition NAM_validate :: "NAM \<Rightarrow> error + bool" where
  "NAM_validate s =
     (if nam_signature s \<noteq> [0x56, 0x41, 0x2A, 0x00] then Inl ValueError
      else if nam_unk04 s \<noteq> 0x3 then Inl ValueError
      else if non_empty s \<noteq> 0x0 \<and> non_empty s \<noteq> 0x1 then Inl ValueError
      else if nam_unk0C s \<noteq> 0x800 then Inl ValueError
      else if nam_unk14 s \<noteq> 0x0 then Inl ValueError
      else Inr True)"

record TIL =
  til_signature :: bytes

definition TIL_validate :: "TIL \<Rightarrow> error + bool" where
  "TIL_validate s =
     (if til_signature s \<noteq> [0x49, 0x44, 0x41, 0x54, 0x49, 0x4C] then Inl ValueError
      else Inr True)"

text \<open>
  The attributes \<^verbatim>\<open>id0\<close>, \<^verbatim>\<open>id1\<close>, \<^verbatim>\<open>nam\<close> and \<^verbatim>\<open>til\<close> of an \<^verbatim>\<open>IDB\<close> are set to
  \<^verbatim>\<open>None\<close> by the constructor and assigned by \<^verbatim>\<open>pcb_header\<close> for the sections it parses.
\<close>

record IDB =
  header :: FileHeader
  id0 :: "ID0 option"
  id1 :: "ID1 option"
  nam :: "NAM option"
  til :: "TIL option"

text \<open>
  \<^verbatim>\<open>IDB.pcb_header\<close>. The parsing itself is done by \<^verbatim>\<open>vstruct\<close> and is a parameter:
  \<open>section_at\<close> is the parse of a \<^verbatim>\<open>Section\<close> at a file offset, giving its contents,
  and \<open>as_id0\<close>, \<open>as_id1\<close>, \<open>as_nam\<close>, \<open>as_til\<close> are the typed parses of such
  contents. The first loop records \<^verbatim>\<open>None\<close> for an offset of zero; the second loop
  skips a section that is \<^verbatim>\<open>None\<close> (and the sections \<^verbatim>\<open>seg\<close>, \<^verbatim>\<open>id2\<close>, which have
  no class), leaving the attribute \<^verbatim>\<open>None\<close>.
\<close>

record parsers =
  section_at :: "int \<Rightarrow> error + bytes"
  as_id0 :: "bytes \<Rightarrow> error + ID0"
  as_id1 :: "bytes \<Rightarrow> error + ID1"
  as_nam :: "bytes \<Rightarrow> error + NAM"
  as_til :: "bytes \<Rightarrow> error + TIL"

fun load_sections :: "(int \<Rightarrow> error + bytes) \<Rightarrow> int list \<Rightarrow> error + bytes option list" where
  "load_sections sec [] = Inr []"
| "load_sections sec (off # rest) =
     (if off = 0
      then (case load_sections sec rest of Inl e \<Rightarrow> Inl e | Inr ss \<Rightarrow> Inr (None # ss))
      else (case sec off of
              Inl e \<Rightarrow> Inl e
            | Inr s \<Rightarrow> (case load_sections sec rest of
                          Inl e \<Rightarrow> Inl e
                        | Inr ss \<Rightarrow> Inr (Some s # ss))))"

definition typed :: "(bytes \<Rightarrow> error + 'a) \<Rightarrow> bytes option \<Rightarrow> error + 'a option" where
  "typed cls section =
     (case section of
        None \<Rightarrow> Inr None
      | Some c \<Rightarrow> (case cls c of Inl e \<Rightarrow> Inl e | Inr s \<Rightarrow> Inr (Some s)))"

definition pcb_header :: "parsers \<Rightarrow> FileHeader \<Rightarrow> error + IDB" where
  "pcb_header ps h =
     (case load_sections (section_at ps) (offsets h) of
        Inl e \<Rightarrow> Inl e
      | Inr ss \<Rightarrow>
          (case typed (as_id0 ps) (ss ! 0) of
             Inl e \<Rightarrow> Inl e
           | Inr s0 \<Rightarrow>
               (case typed (as_id1 ps) (ss ! 1) of
                  Inl e \<Rightarrow> Inl e
                | Inr s1 \<Rightarrow>
                    (case typed (as_nam ps) (ss ! 2) of
                       Inl e \<Rightarrow> Inl e
                     | Inr s2 \<Rightarrow>
                         (case typed (as_til ps) (ss ! 4) of
                            Inl e \<Rightarrow> Inl e
                          | Inr s4 \<Rightarrow>
                              Inr \<lparr>header = h, id0 = s0, id1 = s1, nam = s2, til = s4\<rparr>)))))"

text \<open>
  \<^verbatim>\<open>IDB.validate\<close> calls \<^verbatim>\<open>validate\<close> on the header and on the four attributes in
  turn; calling a method on \<^verbatim>\<open>None\<close> raises \<^verbatim>\<open>AttributeError\<close>.
\<close>

definition on_attr :: "'a option \<Rightarrow> ('a \<Rightarrow> error + bool) \<Rightarrow> error + bool" where
  "on_attr attr validate = (case attr of None \<Rightarrow> Inl AttributeError | Some s \<Rightarrow> validate s)"

definition IDB_validate :: "IDB \<Rightarrow> error + bool" where
  "IDB_validate idb =
     (case FileHeader_validate (header idb) of
        Inl e \<Rightarrow> Inl e
      | Inr _ \<Rightarrow>
          (case on_attr (id0 idb) ID0_validate of
             Inl e \<Rightarrow> Inl e
           | Inr _ \<Rightarrow>
               (case on_attr (id1 idb) ID1_validate of
                  Inl e \<Rightarrow> Inl e
                | Inr _ \<Rightarrow>
                    (case on_attr (nam idb) NAM_validate of
                       Inl e \<Rightarrow> Inl e
                     | Inr _ \<Rightarrow>
                         (case on_attr (til idb) TIL_validate of
                            Inl e \<Rightarrow> Inl e
                          | Inr _ \<Rightarrow> Inr True)))))"

subsection \<open>Address queries\<close>

definition SegStart :: "IDB \<Rightarrow> int \<Rightarrow> error + int" where
  "SegStart idb ea =
     (case id1 idb of
        None \<Rightarrow> Inl AttributeError
      | Some s \<Rightarrow> (case get_segment s ea of Inl e \<Rightarrow> Inl e | Inr seg \<Rightarrow> Inr (b_start (bounds seg))))"

definition GetFlags :: "IDB \<Rightarrow> int \<Rightarrow> error + flags" where
  "GetFlags idb ea = (case id1 idb of None \<Rightarrow> Inl AttributeError | Some s \<Rightarrow> get_flags s ea)"

definition IdbByte :: "IDB \<Rightarrow> int \<Rightarrow> error + flags" where
  "IdbByte idb ea =
     (case GetFlags idb ea of
        Inl e \<Rightarrow> Inl e
      | Inr fl \<Rightarrow> if hasValue fl then Inr (fl AND MS_VAL) else Inl KeyError)"

text \<open>
  The loop of \<^verbatim>\<open>GetManyBytes\<close> over \<^verbatim>\<open>range(ea, ea + size)\<close>, then \<^verbatim>\<open>bytes(ret)\<close>.
\<close>

fun many_bytes :: "IDB \<Rightarrow> int list \<Rightarrow> error + bytes" where
  "many_bytes idb [] = Inr []"
| "many_bytes idb (i # rest) =
     (case IdbByte idb i of
        Inl e \<Rightarrow> Inl e
      | Inr b \<Rightarrow> (case many_bytes idb rest of Inl e \<Rightarrow> Inl e | Inr bs \<Rightarrow> Inr (ucast b # bs)))"

definition GetManyBytes :: "IDB \<Rightarrow> int \<Rightarrow> int \<Rightarrow> bool \<Rightarrow> error + bytes" where
  "GetManyBytes idb ea sz use_dbg =
     (if use_dbg then Inl NotImplementedError
      else (case SegStart idb ea of
              Inl e \<Rightarrow> Inl e
            | Inr a \<Rightarrow>
                (case SegStart idb (ea + sz) of
                   Inl e \<Rightarrow> Inl e
                 | Inr b \<Rightarrow> if a \<noteq> b then Inl IndexError
                            else many_bytes idb [ea..ea + sz - 1])))"

text \<open>
  \<^verbatim>\<open>Head\<close> and \<^verbatim>\<open>NextHead\<close> walk one address at a time until the flags are a head.
  Each walk ends: \<^verbatim>\<open>GetFlags\<close> fails as soon as the address leaves every segment, so
  the distance to the lowest start (or highest end) of the segment table decreases.
\<close>

fun seg_low :: "SegmentDescriptor list \<Rightarrow> int" where
  "seg_low [] = 0"
| "seg_low (segment # rest) = min (b_start (bounds segment)) (seg_low rest)"

fun seg_high :: "SegmentDescriptor list \<Rightarrow> int" where
  "seg_high [] = 0"
| "seg_high (segment # rest) = max (b_end (bounds segment)) (seg_high rest)"

definition idb_low :: "IDB \<Rightarrow> int" where
  "idb_low idb = (case id1 idb of None \<Rightarrow> 0 | Some s \<Rightarrow> seg_low (segments s))"

definition idb_high :: "IDB \<Rightarrow> int" where
  "idb_high idb = (case id1 idb of None \<Rightarrow> 0 | Some s \<Rightarrow> seg_high (segments s))"

lemma get_segment_in_range:
  "get_segment_in segs ea = Inr seg \<Longrightarrow> seg_low segs \<le> ea \<and> ea < seg_high segs"
  by (induction segs) (auto simp: contains_def split: if_splits)

lemma GetFlags_range:
  assumes "GetFlags idb ea = Inr fl"
  shows "idb_low idb \<le> ea \<and> ea < idb_high idb"
proof (cases "id1 idb")
  case None
  with assms show ?thesis by (simp add: GetFlags_def)
next
  case (Some s)
  with assms obtain seg where "get_segment_in (segments s) ea = Inr seg"
    by (auto simp: GetFlags_def get_flags_def get_segment_def split: sum.splits)
  from get_segment_in_range [OF this] Some show ?thesis
    by (simp add: idb_low_def idb_high_def)
qed

function Head :: "IDB \<Rightarrow> int \<Rightarrow> error + int" where
  "Head idb ea =
     (case GetFlags idb ea of
        Inl e \<Rightarrow> Inl e
      | Inr fl \<Rightarrow> if isHead fl then Inr ea else Head idb (ea - 1))"
  by pat_completeness auto
termination
proof (relation "measure (\<lambda>(idb, ea). nat (ea - idb_low idb + 1))")
  show "wf (measure (\<lambda>(idb, ea). nat (ea - idb_low idb + 1)))"
    by simp
next
  fix idb ea fl
  assume "GetFlags idb ea = Inr fl"
  then have "idb_low idb \<le> ea"
    using GetFlags_range by blast
  then show "((idb, ea - 1), (idb, ea)) \<in> measure (\<lambda>(idb, ea). nat (ea - idb_low idb + 1))"
    by simp
qed

function next_head_from :: "IDB \<Rightarrow> int \<Rightarrow> error + int" where
  "next_head_from idb ea =
     (case GetFlags idb ea of
        Inl e \<Rightarrow> Inl e
      | Inr fl \<Rightarrow> if isHead fl then Inr ea else next_head_from idb (ea + 1))"
  by pat_completeness auto
termination
proof (relation "measure (\<lambda>(idb, ea). nat (idb_high idb - ea))")
  show "wf (measure (\<lambda>(idb, ea). nat (idb_high idb - ea)))"
    by simp
next
  fix idb ea fl
  assume "GetFlags idb ea = Inr fl"
  then have "ea < idb_high idb"
    using GetFlags_range by blast
  then show "((idb, ea + 1), (idb, ea)) \<in> measure (\<lambda>(idb, ea). nat (idb_high idb - ea))"
    by simp
qed

definition NextHead :: "IDB \<Rightarrow> int \<Rightarrow> error + int" where
  "NextHead idb ea = next_head_from idb (ea + 1)"

declare Head.simps [simp del] next_head_from.simps [simp del]

section \<open>Example inputs\<close>

text \<open>
  The flags map of the specification's scenario E: segments \<open>[0x1000, 0x1004)\<close> and
  \<open>[0x2000, 0x2008)\<close>, and a flags buffer of the twelve little-endian words
  \<open>0x41, \<dots>, 0x4C\<close> (the letters A to L).
\<close>

definition word_bytes :: "nat \<Rightarrow> bytes" where
  "word_bytes w = [word_of_nat w, 0, 0, 0]"

definition scenario_E :: ID1 where
  "scenario_E =
     \<lparr>id1_signature = [0x56, 0x41, 0x2A, 0x00], id1_unk04 = 0x3, id1_unk0C = 0x800,
      segments = parsed_segments
        [\<lparr>b_start = 0x1000, b_end = 0x1004\<rparr>, \<lparr>b_start = 0x2000, b_end = 0x2008\<rparr>],
      buffer = concat (map word_bytes
        [0x41, 0x42, 0x43, 0x44, 0x45, 0x46, 0x47, 0x48, 0x49, 0x4A, 0x4B, 0x4C])\<rparr>"

text \<open>
  A flags map whose two segments \<open>[0, 10)\<close> and \<open>[5, 15)\<close> overlap; \<^verbatim>\<open>ID1.validate\<close>
  accepts it.
\<close>

definition overlapping :: ID1 where
  "overlapping =
     \<lparr>id1_signature = [0x56, 0x41, 0x2A, 0x00], id1_unk04 = 0x3, id1_unk0C = 0x800,
      segments = parsed_segments [\<lparr>b_start = 0, b_end = 10\<rparr>, \<lparr>b_start = 5, b_end = 15\<rparr>],
      buffer = []\<rparr>"

text \<open>
  A container without a \<^verbatim>\<open>til\<close> section (\<open>offset5\<close> is zero; so are the offsets of
  \<^verbatim>\<open>seg\<close> and \<^verbatim>\<open>id2\<close>). Its flags map has the single segment \<open>[0x1000, 0x1004)\<close>;
  every word of the flags buffer has \<open>FF_IVL\<close> set, with byte values \<open>0x41, \<dots>, 0x44\<close>
  and the classes code, tail, tail, data; the buffer holds these four words twice.
\<close>

definition one_segment :: ID1 where
  "one_segment =
     \<lparr>id1_signature = [0x56, 0x41, 0x2A, 0x00], id1_unk04 = 0x3, id1_unk0C = 0x800,
      segments = parsed_segments [\<lparr>b_start = 0x1000, b_end = 0x1004\<rparr>],
      buffer = [0x41, 0x07, 0, 0, 0x42, 0x03, 0, 0, 0x43, 0x03, 0, 0, 0x44, 0x05, 0, 0,
                0x41, 0x07, 0, 0, 0x42, 0x03, 0, 0, 0x43, 0x03, 0, 0, 0x44, 0x05, 0, 0]\<rparr>"

definition valid_header :: FileHeader where
  "valid_header =
     \<lparr>fh_signature = [0x49, 0x44, 0x41, 0x31], offset1 = 0x100, offset2 = 0x200,
      fh_sig2 = 0xAABBCCDD, fh_version = 6, offset3 = 0x300, offset4 = 0, offset5 = 0,
      offset6 = 0\<rparr>"

definition empty_index :: ID0 where
  "empty_index = \<lparr>id0_signature = [0x42, 0x2D, 0x74, 0x72, 0x65, 0x65, 0x20, 0x76, 0x32],
     root_page = 1, record_count = 0, pages = (\<lambda>n. None)\<rparr>"

definition empty_nam :: NAM where
  "empty_nam = \<lparr>nam_signature = [0x56, 0x41, 0x2A, 0x00], nam_unk04 = 0x3, non_empty = 0,
     nam_unk0C = 0x800, nam_unk14 = 0\<rparr>"

definition sample_parsers :: parsers where
  "sample_parsers =
     \<lparr>section_at = (\<lambda>off. Inr []), as_id0 = (\<lambda>c. Inr empty_index),
      as_id1 = (\<lambda>c. Inr one_segment), as_nam = (\<lambda>c. Inr empty_nam),
      as_til = (\<lambda>c. Inr \<lparr>til_signature = [0x49, 0x44, 0x41, 0x54, 0x49, 0x4C]\<rparr>)\<rparr>"

definition no_til :: IDB where
  "no_til = \<lparr>header = valid_header, id0 = Some empty_index, id1 = Some one_segment,
     nam = Some empty_nam, til = None\<rparr>"

text \<open>
  Leaf pages. \<open>scenario_B\<close> is the page of the specification's scenario B, keys
  \<open>aa\<close>, \<open>ab\<close>, \<open>bb\<close> with values \<open>1\<close>, \<open>2\<close>, \<open>3\<close>, the second key stored as the suffix
  \<open>b\<close> after a common prefix of one byte. \<open>unsorted_page\<close> holds the keys \<open>b\<close>, \<open>a\<close> in
  this order.
\<close>

definition leaf_slot :: "nat \<Rightarrow> bytes \<Rightarrow> bytes \<Rightarrow> slot" where
  "leaf_slot cp k v = \<lparr>ptr_page = cp, ptr_common_prefix = cp, body_key = k, body_value = v\<rparr>"

definition branch_slot :: "nat \<Rightarrow> bytes \<Rightarrow> bytes \<Rightarrow> slot" where
  "branch_slot pg k v =
     \<lparr>ptr_page = pg, ptr_common_prefix = pg mod 65536, body_key = k, body_value = v\<rparr>"

definition scenario_B :: Page where
  "scenario_B = \<lparr>ppointer = 0, entry_count = 3,
     contents = [leaf_slot 0 [0x61, 0x61] [0x31], leaf_slot 1 [0x62] [0x32],
                 leaf_slot 0 [0x62, 0x62] [0x33]]\<rparr>"

definition unsorted_page :: Page where
  "unsorted_page = \<lparr>ppointer = 0, entry_count = 2,
     contents = [leaf_slot 0 [0x62] [0x31], leaf_slot 0 [0x61] [0x32]]\<rparr>"

text \<open>
  Two B-trees. \<open>two_level\<close> has a root with the single entry \<open>ba\<close>, the leaf \<open>a\<close> under
  \<^verbatim>\<open>ppointer\<close> and the leaf \<open>c\<close> under the entry. \<open>three_level\<close> has the keys
  \<open>a, ab, b, c, d, e, f, g\<close> on three levels, with \<open>d\<close> in the root and \<open>b\<close>, \<open>f\<close> in
  the two branch pages below it.
\<close>

definition leaf_page :: "slot list \<Rightarrow> Page" where
  "leaf_page ss = \<lparr>ppointer = 0, entry_count = length ss, contents = ss\<rparr>"

definition branch_page :: "nat \<Rightarrow> slot list \<Rightarrow> Page" where
  "branch_page pp ss = \<lparr>ppointer = pp, entry_count = length ss, contents = ss\<rparr>"

definition root2 :: Page where
  "root2 = branch_page 2 [branch_slot 3 [0x62, 0x61] [0x32]]"

definition leaf_a :: Page where
  "leaf_a = leaf_page [leaf_slot 0 [0x61] [0x31]]"

definition leaf_c :: Page where
  "leaf_c = leaf_page [leaf_slot 0 [0x63] [0x33]]"

definition two_level :: ID0 where
  "two_level =
     \<lparr>id0_signature = [0x42, 0x2D, 0x74, 0x72, 0x65, 0x65, 0x20, 0x76, 0x32],
      root_page = 1, record_count = 3,
      pages = [1 \<mapsto> root2, 2 \<mapsto> leaf_a, 3 \<mapsto> leaf_c]\<rparr>"

definition root3 :: Page where
  "root3 = branch_page 2 [branch_slot 3 [0x64] [0x34]]"

definition mid_b :: Page where
  "mid_b = branch_page 4 [branch_slot 5 [0x62] [0x32]]"

definition mid_f :: Page where
  "mid_f = branch_page 6 [branch_slot 7 [0x66] [0x36]]"

definition leaf_a_ab :: Page where
  "leaf_a_ab = leaf_page [leaf_slot 0 [0x61] [0x31], leaf_slot 1 [0x62] [0x31]]"

definition leaf_e :: Page where
  "leaf_e = leaf_page [leaf_slot 0 [0x65] [0x35]]"

definition leaf_g :: Page where
  "leaf_g = leaf_page [leaf_slot 0 [0x67] [0x37]]"

definition three_level :: ID0 where
  "three_level =
     \<lparr>id0_signature = [0x42, 0x2D, 0x74, 0x72, 0x65, 0x65, 0x20, 0x76, 0x32],
      root_page = 1, record_count = 8,
      pages = [1 \<mapsto> root3, 2 \<mapsto> mid_b, 3 \<mapsto> mid_f, 4 \<mapsto> leaf_a_ab, 5 \<mapsto> leaf_c,
               6 \<mapsto> leaf_e, 7 \<mapsto> leaf_g]\<rparr>"

section \<open>Segment offsets and flag lookup\<close>

lemma segment_offsets_unparsed:
  "segment_offsets off (replicate n unparsed) = replicate n off"
  by (induction n) (simp_all add: unparsed_def Let_def)

lemma pcb_segment_count_zero: "pcb_segment_count n = replicate n 0"
  by (simp add: pcb_segment_count_def segment_offsets_unparsed)

lemma scenario_E_segments:
  "segments scenario_E =
     [\<lparr>bounds = \<lparr>b_start = 0x1000, b_end = 0x1004\<rparr>, offset = 0\<rparr>,
      \<lparr>bounds = \<lparr>b_start = 0x2000, b_end = 0x2008\<rparr>, offset = 0\<rparr>]"
  by (simp add: scenario_E_def parsed_segments_def pcb_segment_count_zero)

lemma scenario_E_buffer:
  "buffer scenario_E =
     [0x41, 0, 0, 0, 0x42, 0, 0, 0, 0x43, 0, 0, 0, 0x44, 0, 0, 0, 0x45, 0, 0, 0, 0x46, 0, 0, 0,
      0x47, 0, 0, 0, 0x48, 0, 0, 0, 0x49, 0, 0, 0, 0x4A, 0, 0, 0, 0x4B, 0, 0, 0, 0x4C, 0, 0, 0]"
  by (simp add: scenario_E_def word_bytes_def)

text \<open>
  C1. The claim: each descriptor's offset is the sum of \<open>4 * (end - start)\<close> over the
  preceding segments, and so in scenario E \<open>get_flags(0x1002)\<close> is the word C and
  \<open>get_flags(0x2000)\<close> the word E. The loop of \<^verbatim>\<open>pcb_segment_count\<close> runs before the
  segment bounds are parsed, on elements whose \<^verbatim>\<open>start\<close> and \<^verbatim>\<open>end\<close> are 0, so every
  offset it records is 0. In scenario E both descriptors have offset 0:
  \<open>get_flags(0x1002)\<close> reads byte offset 8, the word C, and \<open>get_flags(0x2000)\<close> reads
  byte offset 0, the word A, where the claim has byte offset 16 and the word E.
\<close>

theorem pcb_segment_count_scenario_E:
  "map offset (segments scenario_E) = [0, 0]
   \<and> get_flags scenario_E 0x1002 = Inr 0x43
   \<and> get_flags scenario_E 0x2000 = Inr 0x41"
  by (simp add: scenario_E_segments scenario_E_buffer get_flags_def get_segment_def contains_def
      unpack_from_u32_def Let_def)

section \<open>The following segment\<close>

lemma next_segment_scan_first:
  assumes "i < length rest" "contains (rest ! i) ea"
    and "\<forall>j<i. \<not> contains (rest ! j) ea"
  shows "next_segment_scan (pre @ rest) (length pre) rest ea =
           (if Suc i < length rest then Inr (rest ! Suc i) else Inl IndexError)"
  using assms
proof (induction rest arbitrary: pre i)
  case Nil
  then show ?case by simp
next
  case (Cons s rest)
  show ?case
  proof (cases i)
    case 0
    with Cons.prems show ?thesis
      by (auto simp: py_index_def Let_def nat_add_distrib nth_append)
  next
    case (Suc i')
    with Cons.prems have "\<not> contains s ea" by auto
    moreover have "next_segment_scan ((pre @ [s]) @ rest) (length (pre @ [s])) rest ea =
           (if Suc i' < length rest then Inr (rest ! Suc i') else Inl IndexError)"
      using Cons.prems Suc by (intro Cons.IH) auto
    ultimately show ?thesis using Suc by simp
  qed
qed

lemma next_segment_scan_none:
  "\<forall>s\<in>set rest. \<not> contains s ea \<Longrightarrow> next_segment_scan all k rest ea = Inl KeyError"
  by (induction rest arbitrary: k) auto

lemma overlapping_segments:
  "segments overlapping =
     [\<lparr>bounds = \<lparr>b_start = 0, b_end = 10\<rparr>, offset = 0\<rparr>,
      \<lparr>bounds = \<lparr>b_start = 5, b_end = 15\<rparr>, offset = 0\<rparr>]"
  by (simp add: overlapping_def parsed_segments_def pcb_segment_count_zero)

text \<open>
  C8, as stated, fails where segments overlap. The address 7 lies in the last segment
  \<open>[5, 15)\<close> of \<open>overlapping\<close>, and the claim has \<^verbatim>\<open>get_next_segment(7)\<close> fail with
  \<^verbatim>\<open>IndexError\<close>; the scan stops at the first segment that contains 7, \<open>[0, 10)\<close>, and
  returns the segment after that one.
\<close>

theorem get_next_segment_overlapping:
  "ID1_validate overlapping = Inr True
   \<and> length (segments overlapping) = 2
   \<and> contains (segments overlapping ! 1) 7
   \<and> get_next_segment overlapping 7 = Inr (segments overlapping ! 1)"
proof -
  have "ID1_validate overlapping = Inr True"
    by (simp add: ID1_validate_def overlapping_segments) (simp add: overlapping_def)
  then show ?thesis
    by (simp add: overlapping_segments get_next_segment_def contains_def py_index_def)
qed

text \<open>
  C8, amended. Let segment \<open>i\<close> be the first segment of the table that contains \<open>ea\<close>
  (the one \<^verbatim>\<open>get_segment\<close> returns, and where the scan of \<^verbatim>\<open>get_next_segment\<close> stops).
  Then \<^verbatim>\<open>get_next_segment(ea)\<close> returns the segment at index \<open>i + 1\<close> when \<open>i\<close> is not
  the last index, and fails with \<^verbatim>\<open>IndexError\<close> when it is (the guard
  \<^verbatim>\<open>i == len(self.segments)\<close> never holds, and the list access
  \<^verbatim>\<open>self.segments[i + 1]\<close> raises it). When no segment contains \<open>ea\<close> it fails with
  \<^verbatim>\<open>KeyError\<close>.
\<close>

theorem get_next_segment_cases:
  "(i < length (segments s) \<and> contains (segments s ! i) ea
      \<and> (\<forall>j<i. \<not> contains (segments s ! j) ea)
    \<longrightarrow> get_next_segment s ea =
          (if i + 1 < length (segments s) then Inr (segments s ! (i + 1)) else Inl IndexError))
   \<and> ((\<forall>seg\<in>set (segments s). \<not> contains seg ea) \<longrightarrow> get_next_segment s ea = Inl KeyError)"
  using next_segment_scan_first [of i "segments s" ea "[]"]
    next_segment_scan_none [of "segments s" ea "segments s" 0]
  by (auto simp: get_next_segment_def)

theorem get_next_segment_cases_witness:
  "contains (segments scenario_E ! 0) 0x1002
   \<and> get_next_segment scenario_E 0x1002 = Inr (segments scenario_E ! 1)
   \<and> contains (segments scenario_E ! 1) 0x2003 \<and> \<not> contains (segments scenario_E ! 0) 0x2003
   \<and> get_next_segment scenario_E 0x2003 = Inl IndexError
   \<and> \<not> contains (segments scenario_E ! 0) 0x1FFF \<and> \<not> contains (segments scenario_E ! 1) 0x1FFF
   \<and> get_next_segment scenario_E 0x1FFF = Inl KeyError"
proof -
  have a: "0 < length (segments scenario_E) \<and> contains (segments scenario_E ! 0) 0x1002
      \<and> (\<forall>j<0::nat. \<not> contains (segments scenario_E ! j) 0x1002)"
    by (simp add: scenario_E_segments contains_def)
  have b: "1 < length (segments scenario_E) \<and> contains (segments scenario_E ! 1) 0x2003
      \<and> (\<forall>j<1::nat. \<not> contains (segments scenario_E ! j) 0x2003)"
    by (simp add: scenario_E_segments contains_def)
  have c: "\<forall>seg\<in>set (segments scenario_E). \<not> contains seg 0x1FFF"
    by (simp add: scenario_E_segments contains_def)
  from a get_next_segment_cases [of 0 scenario_E "0x1002"]
  have "get_next_segment scenario_E 0x1002 = Inr (segments scenario_E ! 1)"
    by (simp add: scenario_E_segments)
  moreover from b get_next_segment_cases [of 1 scenario_E "0x2003"]
  have "get_next_segment scenario_E 0x2003 = Inl IndexError"
    by (simp add: scenario_E_segments)
  moreover from c get_next_segment_cases [of 0 scenario_E "0x1FFF"]
  have "get_next_segment scenario_E 0x1FFF = Inl KeyError"
    by blast
  ultimately show ?thesis using a b c by (simp add: scenario_E_segments)
qed

section \<open>Reading bytes and walking heads\<close>

lemma one_segment_segments:
  "segments one_segment = [\<lparr>bounds = \<lparr>b_start = 0x1000, b_end = 0x1004\<rparr>, offset = 0\<rparr>]"
  by (simp add: one_segment_def parsed_segments_def pcb_segment_count_zero)

lemma one_segment_buffer:
  "buffer one_segment = [0x41, 0x07, 0, 0, 0x42, 0x03, 0, 0, 0x43, 0x03, 0, 0, 0x44, 0x05, 0, 0,
                0x41, 0x07, 0, 0, 0x42, 0x03, 0, 0, 0x43, 0x03, 0, 0, 0x44, 0x05, 0, 0]"
  by (simp add: one_segment_def)

lemma flags_one_segment:
  "GetFlags no_til 0x1000 = Inr 0x741" "GetFlags no_til 0x1001 = Inr 0x342"
  "GetFlags no_til 0x1002 = Inr 0x343" "GetFlags no_til 0x1003 = Inr 0x544"
  "GetFlags no_til 0x1004 = Inl KeyError"
  by (simp_all add: GetFlags_def no_til_def get_flags_def get_segment_def one_segment_segments
      one_segment_buffer contains_def unpack_from_u32_def Let_def)

lemma SegStart_one_segment:
  "SegStart no_til 0x1002 = Inr 0x1000" "SegStart no_til 0x1003 = Inr 0x1000"
  "SegStart no_til 0x1004 = Inl KeyError"
  by (simp_all add: SegStart_def no_til_def get_segment_def one_segment_segments contains_def)

text \<open>
  C4. The claim: \<open>get_many_bytes(ea, size)\<close> returns the bytes whenever \<open>ea\<close> and
  \<open>ea + size - 1\<close> lie in one segment and every byte has a value; in particular
  \<open>get_many_bytes(0x1002, 2)\<close> succeeds on the segment \<open>[0x1000, 0x1004)\<close>.
  \<^verbatim>\<open>GetManyBytes\<close> compares \<^verbatim>\<open>SegStart(ea)\<close> with \<^verbatim>\<open>SegStart(ea + size)\<close>, one address
  past the range: here \<open>0x1002\<close> and \<open>0x1003\<close> are in the segment and both bytes have
  values, yet \<^verbatim>\<open>SegStart(0x1004)\<close> raises \<^verbatim>\<open>KeyError\<close> and so does the call.
\<close>

theorem GetManyBytes_last_byte:
  "SegStart no_til 0x1002 = Inr 0x1000 \<and> SegStart no_til 0x1003 = Inr 0x1000
   \<and> IdbByte no_til 0x1002 = Inr 0x43 \<and> IdbByte no_til 0x1003 = Inr 0x44
   \<and> GetManyBytes no_til 0x1002 2 False = Inl KeyError"
  by (simp add: GetManyBytes_def SegStart_one_segment IdbByte_def flags_one_segment hasValue_def
      FF_IVL_def MS_VAL_def)

lemma next_head_from_stops:
  "next_head_from idb ea = Inr h \<Longrightarrow> \<exists>fl. GetFlags idb h = Inr fl \<and> isHead fl"
proof (induction idb ea rule: next_head_from.induct)
  case (1 idb ea)
  show ?case
  proof (cases "GetFlags idb ea")
    case (Inl e)
    with "1.prems" show ?thesis by (simp add: next_head_from.simps [of idb ea])
  next
    case (Inr fl)
    show ?thesis
    proof (cases "isHead fl")
      case True
      with Inr "1.prems" show ?thesis by (simp add: next_head_from.simps [of idb ea])
    next
      case False
      with Inr "1.prems" have "next_head_from idb (ea + 1) = Inr h"
        by (simp add: next_head_from.simps [of idb ea])
      with "1.IH" [OF Inr False] show ?thesis by simp
    qed
  qed
qed

text \<open>
  C9. Whenever \<^verbatim>\<open>NextHead(ea)\<close> returns an address \<open>h\<close>, \<^verbatim>\<open>Head(h)\<close> returns \<open>h\<close>:
  \<^verbatim>\<open>NextHead\<close> stops only at an address whose flags are a head, and \<^verbatim>\<open>Head\<close> returns
  such an address unchanged. (Both walks are total functions here: they always end,
  with an address or with a failure.)
\<close>

theorem Head_NextHead: "NextHead idb ea = Inr h \<Longrightarrow> Head idb h = Inr h"
proof -
  assume "NextHead idb ea = Inr h"
  then obtain fl where "GetFlags idb h = Inr fl" "isHead fl"
    unfolding NextHead_def using next_head_from_stops by blast
  then show "Head idb h = Inr h"
    by (simp add: Head.simps [of idb h])
qed

theorem Head_NextHead_witness:
  "NextHead no_til 0x1000 = Inr 0x1003 \<and> Head no_til 0x1003 = Inr 0x1003"
proof -
  have "isHead 0x544" "\<not> isHead 0x342" "\<not> isHead 0x343"
    by (simp_all add: isHead_def isCode_def isData_def MS_CLS_def FF_CODE_def FF_DATA_def)
  then have n: "NextHead no_til 0x1000 = Inr 0x1003"
    by (simp add: NextHead_def next_head_from.simps [of no_til "0x1001"]
        next_head_from.simps [of no_til "0x1002"] next_head_from.simps [of no_til "0x1003"]
        flags_one_segment)
  from Head_NextHead [OF n] n show ?thesis by simp
qed

section \<open>Validating a container\<close>

lemma no_til_parsed: "pcb_header sample_parsers valid_header = Inr no_til"
  by (simp add: pcb_header_def sample_parsers_def valid_header_def offsets_def typed_def no_til_def)

text \<open>
  C7. The claim: with a valid file header, \<open>validate\<close> succeeds iff each of id0, id1,
  nam, til that is present passes its own check; in particular it succeeds when some of
  them are absent. \<^verbatim>\<open>pcb_header\<close> leaves the attribute of an absent section \<^verbatim>\<open>None\<close>,
  and \<^verbatim>\<open>IDB.validate\<close> calls \<^verbatim>\<open>validate()\<close> on all four attributes: for the container
  without a til section, whose header, id0, id1 and nam are all valid, it raises
  \<^verbatim>\<open>AttributeError\<close>.
\<close>

theorem validate_no_til:
  "pcb_header sample_parsers valid_header = Inr no_til
   \<and> FileHeader_validate (header no_til) = Inr True
   \<and> map_option ID0_validate (id0 no_til) = Some (Inr True)
   \<and> map_option ID1_validate (id1 no_til) = Some (Inr True)
   \<and> map_option NAM_validate (nam no_til) = Some (Inr True)
   \<and> til no_til = None
   \<and> IDB_validate no_til = Inl AttributeError"
proof -
  have h: "FileHeader_validate valid_header = Inr True"
    by (simp add: FileHeader_validate_def valid_header_def)
  have a: "ID0_validate empty_index = Inr True"
    by (simp add: ID0_validate_def empty_index_def)
  have b: "ID1_validate one_segment = Inr True"
    by (simp add: ID1_validate_def one_segment_segments) (simp add: one_segment_def)
  have c: "NAM_validate empty_nam = Inr True"
    by (simp add: NAM_validate_def empty_nam_def)
  show ?thesis
    using h a b c no_til_parsed by (simp add: IDB_validate_def on_attr_def no_til_def)
qed

section \<open>Decoded pages\<close>

lemma scenario_B_entries:
  "load_entries scenario_B =
     Inr [LeafEntry [0x61, 0x61] [0x31], LeafEntry [0x61, 0x62] [0x32], LeafEntry [0x62, 0x62] [0x33]]"
  by (simp add: load_entries_def scenario_B_def leaf_slot_def is_leaf_def Let_def)

lemma length_load_from: "length (load_from leaf pkey ss) = length ss"
  by (induction ss arbitrary: pkey) (simp_all add: Let_def)

lemma load_entries_length: "load_entries page = Inr es \<Longrightarrow> length es = entry_count page"
  by (auto simp: load_entries_def length_load_from split: if_splits)

text \<open>
  C10, as stated, fails below \<open>-entry_count\<close>. The claim has \<^verbatim>\<open>get_entry(n)\<close> fail exactly
  when \<open>n \<ge> entry_count\<close>; on the page of scenario B, with three entries,
  \<^verbatim>\<open>get_entry(-4)\<close> passes the guard and the list access raises \<^verbatim>\<open>IndexError\<close>.
\<close>

theorem get_entry_below_range:
  "load_entries scenario_B =
     Inr [LeafEntry [0x61, 0x61] [0x31], LeafEntry [0x61, 0x62] [0x32], LeafEntry [0x62, 0x62] [0x33]]
   \<and> entry_count scenario_B = 3
   \<and> \<not> (- 4 \<ge> int (entry_count scenario_B))
   \<and> get_entry scenario_B (- 4) = Inl IndexError"
proof -
  have "entry_count scenario_B = 3"
    by (simp add: scenario_B_def)
  then show ?thesis
    by (simp add: scenario_B_entries get_entry_def py_index_def)
qed

text \<open>
  C10, amended. For a decoded page with \<open>entry_count \<ge> 1\<close> (the decoding gives
  \<open>entry_count\<close> entries), \<^verbatim>\<open>get_entry(n)\<close> fails exactly when \<open>n \<ge> entry_count\<close>, with
  the \<^verbatim>\<open>KeyError\<close> of the guard, or \<open>n < -entry_count\<close>, with the \<^verbatim>\<open>IndexError\<close> of the
  list access. For \<open>0 \<le> n < entry_count\<close> it returns entry \<open>n\<close>. A negative \<open>n\<close> with
  \<open>-entry_count \<le> n < 0\<close> is not rejected, since only the upper bound is guarded: the
  entry at position \<open>entry_count + n\<close> is returned, so \<^verbatim>\<open>get_entry(-1)\<close> is the last
  entry.
\<close>

theorem get_entry_guard:
  assumes "load_entries page = Inr es" and "1 \<le> entry_count page"
  shows "length es = entry_count page
    \<and> get_entry page n =
        (if n \<ge> int (entry_count page) then Inl KeyError
         else if 0 \<le> n then Inr (es ! nat n)
         else if - int (entry_count page) \<le> n then Inr (es ! nat (int (entry_count page) + n))
         else Inl IndexError)
    \<and> get_entry page (- 1) = Inr (last es)
    \<and> ((\<exists>e. get_entry page n = Inl e)
          \<longleftrightarrow> n \<ge> int (entry_count page) \<or> n < - int (entry_count page))"
proof -
  have len: "length es = entry_count page"
    using assms(1) by (rule load_entries_length)
  have ne: "es \<noteq> []"
    using len assms(2) by auto
  have val: "get_entry page m =
        (if m \<ge> int (entry_count page) then Inl KeyError
         else if 0 \<le> m then Inr (es ! nat m)
         else if - int (entry_count page) \<le> m then Inr (es ! nat (int (entry_count page) + m))
         else Inl IndexError)" for m
    using assms len by (auto simp: get_entry_def py_index_def Let_def add.commute)
  have "nat (int (entry_count page) + - 1) = length es - 1"
    using len assms(2) by simp
  then have "get_entry page (- 1) = Inr (last es)"
    using assms(2) ne by (simp add: val [of "- 1"] last_conv_nth)
  moreover have "(\<exists>e. get_entry page n = Inl e)
          \<longleftrightarrow> n \<ge> int (entry_count page) \<or> n < - int (entry_count page)"
    by (auto simp: val [of n])
  ultimately show ?thesis
    using len val [of n] by simp
qed

theorem get_entry_guard_witness:
  "get_entry scenario_B 3 = Inl KeyError
   \<and> get_entry scenario_B 1 = Inr (LeafEntry [0x61, 0x62] [0x32])
   \<and> get_entry scenario_B (- 1) = Inr (LeafEntry [0x62, 0x62] [0x33])
   \<and> get_entry scenario_B (- 3) = Inr (LeafEntry [0x61, 0x61] [0x31])"
proof -
  have c: "1 \<le> entry_count scenario_B" "entry_count scenario_B = 3"
    by (simp_all add: scenario_B_def)
  note g = get_entry_guard [OF scenario_B_entries c(1)]
  from g [of 3] g [of 1] g [of "- 3"] show ?thesis
    by (simp add: c(2))
qed

lemma validate_loop_None: "validate_loop None es = Inr True"
  by (induction es) simp_all

text \<open>
  C3. The claim: a page whose reconstructed keys are not strictly ascending fails
  validation. In \<^verbatim>\<open>Page.validate\<close> the variable \<^verbatim>\<open>last\<close> is \<^verbatim>\<open>None\<close> in every
  iteration, since \<^verbatim>\<open>continue\<close> comes before the assignment, so no two keys are ever
  compared: the page with the keys \<open>b\<close>, \<open>a\<close> in this order validates.
\<close>

theorem Page_validate_unsorted:
  "map entry_key (case load_entries unsorted_page of Inr es \<Rightarrow> es | Inl e \<Rightarrow> []) = [[0x62], [0x61]]
   \<and> Page_validate unsorted_page = Inr True"
  by (simp add: Page_validate_def get_entries_def load_entries_def unsorted_page_def leaf_slot_def
      is_leaf_def Let_def)

section \<open>Searching a tree whose root has one entry\<close>

lemma two_level_pages:
  "root_page two_level = Suc 0"
  "get_page two_level (Suc 0) = Inr root2"
  "get_page two_level 2 = Inr leaf_a"
  "get_page two_level 3 = Inr leaf_c"
  by (simp_all add: get_page_def two_level_def)

lemma two_level_entries:
  "load_entries root2 = Inr [BranchEntry 3 [0x62, 0x61] [0x32]]"
  "load_entries leaf_a = Inr [LeafEntry [0x61] [0x31]]"
  "load_entries leaf_c = Inr [LeafEntry [0x63] [0x33]]"
  by (simp_all add: load_entries_def root2_def leaf_a_def leaf_c_def branch_page_def leaf_page_def
      branch_slot_def leaf_slot_def is_leaf_def Let_def)

lemma two_level_kinds:
  "\<not> is_leaf root2" "is_leaf leaf_a" "is_leaf leaf_c"
  "ppointer root2 = 2" "entry_count root2 = Suc 0" "entry_count leaf_a = Suc 0"
  by (simp_all add: is_leaf_def root2_def leaf_a_def leaf_c_def branch_page_def leaf_page_def)

lemma two_level_inorder:
  "inorder two_level 2 (root_page two_level) =
     [LeafEntry [0x61] [0x31], BranchEntry 3 [0x62, 0x61] [0x32], LeafEntry [0x63] [0x33]]"
proof -
  have p: "pages two_level (Suc 0) = Some root2" "pages two_level 2 = Some leaf_a"
    "pages two_level 3 = Some leaf_c"
    by (simp_all add: two_level_def)
  have "inorder two_level (Suc (Suc 0)) (Suc 0) =
     [LeafEntry [0x61] [0x31], BranchEntry 3 [0x62, 0x61] [0x32], LeafEntry [0x63] [0x33]]"
    by (simp add: p two_level_kinds two_level_entries entries_of_def)
  then show ?thesis
    by (simp add: two_level_pages numeral_2_eq_2)
qed

lemma two_level_well_formed: "well_formed two_level 2"
proof -
  have p: "pages two_level (Suc 0) = Some root2" "pages two_level 2 = Some leaf_a"
    "pages two_level 3 = Some leaf_c"
    by (simp_all add: two_level_def)
  have c: "entry_count root2 = 1" "entry_count leaf_a = 1" "entry_count leaf_c = 1"
    "length (contents root2) = 1" "length (contents leaf_a) = 1" "length (contents leaf_c) = 1"
    by (simp_all add: root2_def leaf_a_def leaf_c_def branch_page_def leaf_page_def)
  have "subtree_ok two_level (Suc (Suc 0)) (Suc 0)"
    by (simp add: p c two_level_kinds two_level_entries entries_of_def)
  then have "subtree_ok two_level 2 (root_page two_level)"
    by (simp add: two_level_pages numeral_2_eq_2)
  moreover have "record_count two_level = 3"
    by (simp add: two_level_def)
  ultimately show ?thesis
    by (simp add: well_formed_def two_level_inorder)
qed

text \<open>
  C5. The claim: \<open>find(K, EXACT_MATCH)\<close> finds every key \<open>K\<close> of a well-formed tree.
  In \<^verbatim>\<open>ExactMatchStrategy._find\<close>, when the key is greater than every entry of a branch
  page, \<^verbatim>\<open>is_largest\<close> is set and \<^verbatim>\<open>entry_number = entry_count - 1\<close>; the test
  \<^verbatim>\<open>entry_number == 0\<close> comes first, so on a branch page with one entry the search
  descends into \<^verbatim>\<open>ppointer\<close> instead of the entry's page. In the well-formed tree
  \<open>two_level\<close> the key \<open>c\<close> is stored in the leaf under the root's only entry, and
  \<open>find(c)\<close> raises \<^verbatim>\<open>KeyError\<close>.
\<close>

theorem find_exact_two_level:
  "well_formed two_level 2
   \<and> map entry_key (inorder two_level 2 (root_page two_level)) = [[0x61], [0x62, 0x61], [0x63]]
   \<and> find two_level [0x63] EXACT_MATCH = Some (Inl KeyError)"
proof -
  have "find two_level [0x63] EXACT_MATCH = Some (Inl KeyError)"
    by (simp add: find_def find_from.simps two_level_pages
        exact_step_def locate_def find_index_def get_entries_def get_entry_def two_level_entries
        two_level_kinds py_index_def entry_page_at_def Let_def)
  then show ?thesis
    using two_level_well_formed by (simp add: two_level_inorder)
qed

text \<open>
  C2. The claim: \<open>find_prefix(K)\<close> returns the least key starting with \<open>K\<close> whenever
  there is one, also when that key is held by a branch entry whose left subtree holds
  no key starting with \<open>K\<close>. \<^verbatim>\<open>PrefixMatchStrategy._find\<close> descends to the left of a
  branch entry that starts with \<open>K\<close> and never comes back to the entry: in \<open>two_level\<close>
  the only key starting with \<open>b\<close> is \<open>ba\<close>, in the root, the leaf to its left holds
  \<open>a\<close>, and \<open>find_prefix(b)\<close> raises \<^verbatim>\<open>KeyError\<close>.
\<close>

theorem find_prefix_two_level:
  "well_formed two_level 2
   \<and> map entry_key (inorder two_level 2 (root_page two_level)) = [[0x61], [0x62, 0x61], [0x63]]
   \<and> prefix [0x62] [0x62, 0x61 :: byte]
   \<and> find_prefix two_level [0x62] = Some (Inl KeyError)"
proof -
  have "find_prefix two_level [0x62] = Some (Inl KeyError)"
    by (simp add: find_prefix_def find_def find_from.simps two_level_pages
        prefix_step_def get_entries_def two_level_entries two_level_kinds Let_def)
  then show ?thesis
    using two_level_well_formed by (simp add: two_level_inorder)
qed

section \<open>Traversal with \<open>next\<close>\<close>

lemma successively_nth:
  "successively P xs \<longleftrightarrow> (\<forall>i. Suc i < length xs \<longrightarrow> P (xs ! i) (xs ! Suc i))"
proof (induction P xs rule: successively.induct)
  case (3 P x y xs)
  show ?case
  proof
    assume a: "successively P (x # y # xs)"
    show "\<forall>i. Suc i < length (x # y # xs) \<longrightarrow> P ((x # y # xs) ! i) ((x # y # xs) ! Suc i)"
    proof (intro allI impI)
      fix i assume "Suc i < length (x # y # xs)"
      then show "P ((x # y # xs) ! i) ((x # y # xs) ! Suc i)"
        using a 3 by (cases i) auto
    qed
  next
    assume a: "\<forall>i. Suc i < length (x # y # xs) \<longrightarrow> P ((x # y # xs) ! i) ((x # y # xs) ! Suc i)"
    then have "P x y" by (auto dest: spec [of _ 0])
    moreover have "\<forall>i. Suc i < length (y # xs) \<longrightarrow> P ((y # xs) ! i) ((y # xs) ! Suc i)"
      using a by (auto dest: spec [of _ "Suc i" for i])
    ultimately show "successively P (x # y # xs)"
      using 3 by simp
  qed
qed simp_all

subsection \<open>Pages that decode\<close>

lemma load_entries_ok:
  "entry_count p \<le> length (contents p) \<Longrightarrow> load_entries p = Inr (entries_of p)"
  by (simp add: entries_of_def load_entries_def)

lemma length_entries_of:
  "entry_count p \<le> length (contents p) \<Longrightarrow> length (entries_of p) = entry_count p"
  by (simp add: entries_of_def load_entries_def length_load_from)

lemma get_entry_nth:
  "entry_count p \<le> length (contents p) \<Longrightarrow> i < entry_count p
   \<Longrightarrow> get_entry p (int i) = Inr (entries_of p ! i)"
  by (simp add: get_entry_def load_entries_ok length_entries_of py_index_def)

lemma load_from_branch:
  "e \<in> set (load_from False pkey ss) \<Longrightarrow> entry_page e = Inr (the_page e)"
  by (induction ss arbitrary: pkey) (auto simp: Let_def)

lemma branch_entry_page:
  "\<not> is_leaf p \<Longrightarrow> e \<in> set (entries_of p) \<Longrightarrow> entry_page e = Inr (the_page e)"
  by (auto simp: entries_of_def load_entries_def split: if_splits dest: load_from_branch)

subsection \<open>The scans of \<open>find_index\<close>\<close>

lemma find_index_branch_all_less:
  "\<forall>e\<in>set xs. entry_key e < k \<Longrightarrow> find_index_branch i xs k = Inl KeyError"
  by (induction xs arbitrary: i) auto

lemma find_index_branch_least_greater:
  "\<forall>x\<in>set xs. entry_key x < k \<Longrightarrow> k < entry_key e
   \<Longrightarrow> find_index_branch i (xs @ e # ys) k = Inr (i + length xs)"
  by (induction xs arbitrary: i) auto

subsection \<open>Unfolding the loops\<close>

lemma ascend_single: "ascend [x] k = Inl IndexError"
  by (simp add: ascend.simps [of "[x]"])

lemma ascend_snoc:
  assumes "pth \<noteq> []"
  shows "ascend (pth @ [x]) k =
     (case find_index (last pth) k of
        Inl KeyError \<Rightarrow> ascend pth k
      | Inl e \<Rightarrow> Inl e
      | Inr i \<Rightarrow> Inr (pth, i))"
proof -
  from assms have "\<not> length (pth @ [x]) \<le> 1"
    by (cases pth) simp_all
  then have "ascend (pth @ [x]) k =
     (case find_index (last (butlast (pth @ [x]))) k of
        Inl KeyError \<Rightarrow> ascend (butlast (pth @ [x])) k
      | Inl e \<Rightarrow> Inl e
      | Inr i \<Rightarrow> Inr (butlast (pth @ [x]), i))"
    by (subst ascend.simps) simp
  then show ?thesis
    unfolding butlast_snoc .
qed

lemma enter_leaf:
  "is_leaf p \<Longrightarrow> enter idx pth p =
     (case get_entry p 0 of
        Inl e \<Rightarrow> Some (Inl e)
      | Inr ent \<Rightarrow> Some (Inr \<lparr>path = pth @ [p], entry = ent, entry_number = 0\<rparr>))"
  by (simp add: enter_def descend_min.simps [of idx pth p])

lemma enter_branch:
  "\<not> is_leaf p \<Longrightarrow> get_page idx (ppointer p) = Inr q
   \<Longrightarrow> enter idx pth p = enter idx (pth @ [p]) q"
  by (simp add: enter_def descend_min.simps [of idx pth p])

lemma py_index_last: "py_index (pth @ [p]) (- 1) = Inr p"
  by (simp add: py_index_def)

lemma next_in_leaf:
  "is_leaf p \<Longrightarrow> Suc i < entry_count p \<Longrightarrow>
   cursor_next idx \<lparr>path = pth @ [p], entry = e, entry_number = int i\<rparr> =
     (case get_entry p (int (Suc i)) of
        Inl err \<Rightarrow> Some (Inl err)
      | Inr ent \<Rightarrow> Some (Inr \<lparr>path = pth @ [p], entry = ent, entry_number = int (Suc i)\<rparr>))"
  by (simp add: cursor_next_def py_index_last add.commute split: sum.splits)

lemma next_leaf_last:
  "is_leaf p \<Longrightarrow> Suc i = entry_count p \<Longrightarrow>
   cursor_next idx \<lparr>path = pth @ [p], entry = e, entry_number = int i\<rparr> =
     leave (pth @ [p]) (entry_key e)"
  by (auto simp: cursor_next_def py_index_last)

lemma next_in_branch:
  "\<not> is_leaf p \<Longrightarrow> entry_page e = Inr pg \<Longrightarrow> get_page idx pg = Inr q \<Longrightarrow>
   cursor_next idx \<lparr>path = pth @ [p], entry = e, entry_number = i\<rparr> = enter idx (pth @ [p]) q"
  by (simp add: cursor_next_def py_index_last)

subsection \<open>Positions and entries\<close>

lemma entry_at: "entry (at pth ie) = snd ie"
  by (cases ie) (simp add: at_def)

lemma concat_map_snd_enumerate:
  "concat (map (\<lambda>ie. f (snd ie)) (enumerate i es)) = concat (map f es)"
  by (induction es arbitrary: i) simp_all

lemma entries_cursors: "map entry (cursors idx h pth n) = inorder idx h n"
proof (induction h arbitrary: pth n)
  case 0
  show ?case by simp
next
  case (Suc h)
  show ?case
  proof (cases "pages idx n")
    case None
    then show ?thesis by simp
  next
    case (Some p)
    show ?thesis
    proof (cases "is_leaf p")
      case True
      with Some show ?thesis by (simp add: comp_def entry_at)
    next
      case False
      have "concat (map (\<lambda>ie. snd ie # inorder idx h (the_page (snd ie))) (enumerate 0 (entries_of p)))
            = concat (map (\<lambda>e. e # inorder idx h (the_page e)) (entries_of p))"
        by (rule concat_map_snd_enumerate)
      with Some False Suc.IH show ?thesis
        by (simp add: map_concat comp_def entry_at)
    qed
  qed
qed

lemma inorder_nonempty: "subtree_ok idx h n \<Longrightarrow> inorder idx h n \<noteq> []"
proof (cases h)
  case 0
  assume "subtree_ok idx h n"
  with 0 show ?thesis by simp
next
  case (Suc h')
  assume ok: "subtree_ok idx h n"
  with Suc obtain p where p: "pages idx n = Some p" "0 < entry_count p"
    "entry_count p \<le> length (contents p)"
    by (auto split: option.splits)
  then have "entries_of p \<noteq> []"
    using length_entries_of [of p] by auto
  with p Suc show ?thesis
    by (cases "entries_of p") auto
qed

lemma cursors_nonempty: "subtree_ok idx h n \<Longrightarrow> cursors idx h pth n \<noteq> []"
  using inorder_nonempty [of idx h n] entries_cursors [of idx h pth n] by auto

lemma entry_last_cursors:
  "subtree_ok idx h n \<Longrightarrow> entry (last (cursors idx h pth n)) = last (inorder idx h n)"
  using cursors_nonempty [of idx h n pth] entries_cursors [of idx h pth n]
  by (metis last_map)

subsection \<open>One page\<close>

lemma leave_found:
  assumes "pth \<noteq> []" "find_index (last pth) k = Inr i" "get_entry (last pth) (int i) = Inr e"
  shows "leave (pth @ [x]) k = Some (Inr \<lparr>path = pth, entry = e, entry_number = int i\<rparr>)"
  using assms by (simp add: leave_def ascend_snoc)

lemma leave_skip:
  assumes "pth \<noteq> []" "find_index (last pth) k = Inl KeyError"
  shows "leave (pth @ [x]) k = leave pth k"
  using assms by (simp add: leave_def ascend_snoc)

lemma find_index_branch_page:
  assumes "\<not> is_leaf p" "entry_count p \<le> length (contents p)"
  shows "find_index p k = find_index_branch 0 (entries_of p) k"
  using assms by (simp add: find_index_def get_entries_def load_entries_ok)

lemma covers_leaf:
  assumes p: "pages idx n = Some p" "is_leaf p" "0 < entry_count p"
    "entry_count p \<le> length (contents p)"
  shows "covers idx (Suc h) pth n p"
proof -
  let ?es = "entries_of p"
  let ?cs = "map (at (pth @ [p])) (enumerate 0 ?es)"
  have len: "length ?es = entry_count p"
    using p by (simp add: length_entries_of)
  have cs: "cursors idx (Suc h) pth n = ?cs"
    using p by simp
  have lcs: "length ?cs = entry_count p"
    using len by simp
  with p have ne: "?cs \<noteq> []"
    by (metis length_greater_0_conv)
  have nth: "?cs ! i = \<lparr>path = pth @ [p], entry = ?es ! i, entry_number = int i\<rparr>"
    if "i < entry_count p" for i
    using that len by (simp add: nth_enumerate_eq at_def)
  have "successively (steps idx) ?cs"
    unfolding successively_nth
  proof (intro allI impI)
    fix i assume "Suc i < length ?cs"
    then have i: "Suc i < entry_count p" using len by simp
    then have "get_entry p (int (Suc i)) = Inr (?es ! Suc i)"
      using p by (intro get_entry_nth) auto
    with i p show "steps idx (?cs ! i) (?cs ! Suc i)"
      by (simp add: nth next_in_leaf del: of_nat_Suc)
  qed
  moreover have "enter idx pth p = Some (Inr (hd ?cs))"
  proof -
    have "get_entry p (int 0) = Inr (?es ! 0)"
      using p by (intro get_entry_nth) auto
    moreover have "hd ?cs = ?cs ! 0"
      using ne by (rule hd_conv_nth)
    ultimately show ?thesis
      using p by (simp add: enter_leaf nth)
  qed
  moreover have "cursor_next idx (last ?cs) = leave (pth @ [p]) (entry_key (entry (last ?cs)))"
  proof -
    obtain m where m: "entry_count p = Suc m"
      using p by (cases "entry_count p") auto
    have "length ?cs - 1 = m"
      using lcs m by simp
    with ne have "last ?cs = ?cs ! m"
      by (metis last_conv_nth)
    then have "last ?cs = \<lparr>path = pth @ [p], entry = ?es ! m, entry_number = int m\<rparr>"
      using m by (simp add: nth)
    then show ?thesis
      using p m by (simp add: next_leaf_last)
  qed
  ultimately show ?thesis
    unfolding covers_def cs by simp
qed

subsection \<open>The entries of a branch page\<close>

lemma blocks_simps:
  "blocks idx h pth i [] = []"
  "blocks idx h pth i (e # es) =
     at pth (i, e) # cursors idx h pth (the_page e) @ blocks idx h pth (Suc i) es"
  by (simp_all add: blocks_def)

lemma sorted_last_append:
  "sorted_wrt P (xs @ ys) \<Longrightarrow> xs \<noteq> [] \<Longrightarrow> sorted_wrt P (last xs # ys)"
  by (auto simp: sorted_wrt_append)

lemma blocks_chain:
  assumes "\<not> is_leaf p" "entry_count p \<le> length (contents p)"
    and "entries_of p = pre @ rest"
    and "\<forall>e\<in>set rest. \<exists>q. pages idx (the_page e) = Some q \<and> subtree_ok idx h (the_page e)
            \<and> covers idx h (pth @ [p]) (the_page e) q"
    and "prev \<noteq> []" "successively (steps idx) prev"
    and "cursor_next idx (last prev) = leave ((pth @ [p]) @ [x]) (entry_key (entry (last prev)))"
    and "\<forall>e\<in>set pre. entry_key e < entry_key (entry (last prev))"
    and "sorted_wrt (<) (entry_key (entry (last prev))
            # map entry_key (concat (map (\<lambda>e. e # inorder idx h (the_page e)) rest)))"
  shows "successively (steps idx) (prev @ blocks idx h (pth @ [p]) (length pre) rest)
    \<and> (\<exists>y. cursor_next idx (last (prev @ blocks idx h (pth @ [p]) (length pre) rest)) =
            leave ((pth @ [p]) @ [y])
              (entry_key (entry (last (prev @ blocks idx h (pth @ [p]) (length pre) rest)))))
    \<and> (\<forall>e\<in>set (entries_of p).
          entry_key e < entry_key (entry (last (prev @ blocks idx h (pth @ [p]) (length pre) rest))))"
  using assms
proof (induction rest arbitrary: pre prev x)
  case Nil
  then show ?case by (auto simp: blocks_simps)
next
  case (Cons e rest)
  let ?P = "pth @ [p]"
  let ?k0 = "entry_key (entry (last prev))"
  let ?i = "length pre"
  let ?bc = "at ?P (?i, e)"
  let ?ce = "cursors idx h ?P (the_page e)"
  let ?ie = "inorder idx h (the_page e)"
  let ?tail = "map entry_key (concat (map (\<lambda>e. e # inorder idx h (the_page e)) rest))"
  from Cons.prems(4) obtain q where q: "pages idx (the_page e) = Some q"
    "subtree_ok idx h (the_page e)" "covers idx h ?P (the_page e) q"
    by auto
  have es: "entries_of p = pre @ e # rest" by (fact Cons.prems(3))
  have srt: "sorted_wrt (<) (?k0 # entry_key e # map entry_key ?ie @ ?tail)"
    using Cons.prems(9) by simp
  have k0e: "?k0 < entry_key e" using srt by simp
  have ce_ne: "?ce \<noteq> []" using q(2) by (rule cursors_nonempty)
  have ie_ne: "?ie \<noteq> []" using q(2) by (rule inorder_nonempty)
  have last_ce: "entry (last ?ce) = last ?ie" using q(2) by (rule entry_last_cursors)
  have last_in: "last ?ie \<in> set ?ie" using ie_ne by simp
  \<comment> \<open>from the end of the previous block up to the entry\<close>
  have i_lt: "?i < entry_count p"
    using es length_entries_of [OF Cons.prems(2)] by simp
  have "find_index p ?k0 = Inr (0 + ?i)"
    unfolding find_index_branch_page [OF Cons.prems(1,2)] es
    using Cons.prems(8) k0e by (rule find_index_branch_least_greater)
  moreover have "get_entry p (int ?i) = Inr e"
    using get_entry_nth [OF Cons.prems(2) i_lt] es by simp
  ultimately have "leave (?P @ [x]) ?k0 = Some (Inr \<lparr>path = ?P, entry = e, entry_number = int ?i\<rparr>)"
    by (intro leave_found) simp_all
  then have step1: "steps idx (last prev) ?bc"
    using Cons.prems(7) by (simp add: at_def)
  \<comment> \<open>from the entry down to the first position below it\<close>
  have "e \<in> set (entries_of p)" using es by simp
  then have "entry_page e = Inr (the_page e)"
    using Cons.prems(1) branch_entry_page by blast
  moreover have "get_page idx (the_page e) = Inr q"
    using q(1) by (simp add: get_page_def)
  ultimately have "cursor_next idx ?bc = enter idx ?P q"
    using Cons.prems(1) by (simp add: at_def next_in_branch)
  then have step2: "steps idx ?bc (hd ?ce)"
    using q(3) by (simp add: covers_def)
  have chain: "successively (steps idx) (prev @ ?bc # ?ce)"
    using Cons.prems(5,6) step1 step2 ce_ne q(3)
    by (simp add: successively_append_iff successively_Cons covers_def)
  \<comment> \<open>the premises for the remaining entries\<close>
  let ?prev' = "prev @ ?bc # ?ce"
  have last': "last ?prev' = last ?ce" using ce_ne by simp
  have p5: "?prev' \<noteq> []" by simp
  have p7: "cursor_next idx (last ?prev') = leave (?P @ [q]) (entry_key (entry (last ?prev')))"
    using q(3) by (simp add: covers_def last' del: last_appendR last.simps last_append)
  have key': "entry_key (entry (last ?prev')) = entry_key (last ?ie)"
    by (simp only: last' last_ce)
  have e_lt: "entry_key e < entry_key (last ?ie)"
    using srt last_in by (auto simp: sorted_wrt_append)
  have p8: "\<forall>e'\<in>set (pre @ [e]). entry_key e' < entry_key (entry (last ?prev'))"
    unfolding key' using Cons.prems(8) k0e e_lt by auto
  have "sorted_wrt (<) (map entry_key ?ie @ ?tail)"
    using srt by simp
  then have "sorted_wrt (<) (last (map entry_key ?ie) # ?tail)"
    using ie_ne by (intro sorted_last_append) simp_all
  then have p9: "sorted_wrt (<) (entry_key (entry (last ?prev')) # ?tail)"
    unfolding key' using ie_ne by (simp add: last_map)
  have p3: "entries_of p = (pre @ [e]) @ rest" using es by simp
  have p4: "\<forall>e\<in>set rest. \<exists>q. pages idx (the_page e) = Some q \<and> subtree_ok idx h (the_page e)
            \<and> covers idx h (pth @ [p]) (the_page e) q"
    using Cons.prems(4) by simp
  have eq: "prev @ blocks idx h ?P ?i (e # rest) = ?prev' @ blocks idx h ?P (length (pre @ [e])) rest"
    by (simp add: blocks_simps)
  show ?case
    unfolding eq
    by (rule Cons.IH [OF Cons.prems(1,2) p3 p4 p5 chain p7 p8 p9])
qed

subsection \<open>A whole subtree\<close>

lemma subtree_ok_page: "subtree_ok idx h n \<Longrightarrow> \<exists>q. pages idx n = Some q"
  by (cases h) (auto split: option.splits)

lemma sorted_child:
  assumes "sorted_wrt P (map g (xs @ concat (map (\<lambda>e. e # f e) es)))" "e \<in> set es"
  shows "sorted_wrt P (map g (f e))"
proof -
  from assms(2) obtain ys zs where "es = ys @ e # zs"
    by (auto dest: split_list)
  with assms(1) show ?thesis
    by (simp add: sorted_wrt_append)
qed

lemma covers_tree:
  assumes "subtree_ok idx h n" "sorted_wrt (<) (map entry_key (inorder idx h n))"
    and "pages idx n = Some p"
  shows "covers idx h pth n p"
  using assms
proof (induction h arbitrary: pth n p)
  case 0
  then show ?case by simp
next
  case (Suc h)
  from Suc.prems(1,3) have cnt: "0 < entry_count p" "entry_count p \<le> length (contents p)"
    by auto
  show ?case
  proof (cases "is_leaf p")
    case True
    with Suc.prems(3) cnt show ?thesis by (intro covers_leaf)
  next
    case False
    let ?P = "pth @ [p]"
    let ?es = "entries_of p"
    let ?low = "cursors idx h ?P (ppointer p)"
    let ?ilow = "inorder idx h (ppointer p)"
    let ?tail = "concat (map (\<lambda>e. e # inorder idx h (the_page e)) ?es)"
    from Suc.prems(1,3) False have ok0: "subtree_ok idx h (ppointer p)"
      and oks: "\<forall>e\<in>set ?es. subtree_ok idx h (the_page e)"
      by (auto simp: list_all_iff)
    have ino: "inorder idx (Suc h) n = ?ilow @ ?tail"
      using Suc.prems(3) False by simp
    have srt: "sorted_wrt (<) (map entry_key (?ilow @ ?tail))"
      using Suc.prems(2) unfolding ino .
    have cur: "cursors idx (Suc h) pth n = ?low @ blocks idx h ?P 0 ?es"
      using Suc.prems(3) False by (simp add: blocks_def)
    from ok0 obtain q0 where q0: "pages idx (ppointer p) = Some q0"
      using subtree_ok_page by blast
    have srt0: "sorted_wrt (<) (map entry_key ?ilow)"
      using srt by (simp add: sorted_wrt_append)
    have c0: "covers idx h ?P (ppointer p) q0"
      using ok0 srt0 q0 by (rule Suc.IH)
    have kids: "\<forall>e\<in>set ?es. \<exists>q. pages idx (the_page e) = Some q
        \<and> subtree_ok idx h (the_page e) \<and> covers idx h ?P (the_page e) q"
    proof
      fix e assume e: "e \<in> set ?es"
      with oks have ok: "subtree_ok idx h (the_page e)" by blast
      then obtain q where q: "pages idx (the_page e) = Some q"
        using subtree_ok_page by blast
      have "sorted_wrt (<) (map entry_key (inorder idx h (the_page e)))"
        using srt e by (rule sorted_child)
      with ok have "covers idx h ?P (the_page e) q"
        using q by (rule Suc.IH)
      with ok q show "\<exists>q. pages idx (the_page e) = Some q
        \<and> subtree_ok idx h (the_page e) \<and> covers idx h ?P (the_page e) q"
        by blast
    qed
    have ne0: "?low \<noteq> []" using ok0 by (rule cursors_nonempty)
    have in0_ne: "?ilow \<noteq> []" using ok0 by (rule inorder_nonempty)
    have key0: "entry_key (entry (last ?low)) = last (map entry_key ?ilow)"
      using entry_last_cursors [OF ok0] in0_ne by (simp add: last_map)
    have "sorted_wrt (<) (map entry_key ?ilow @ map entry_key ?tail)"
      using srt by simp
    then have "sorted_wrt (<) (last (map entry_key ?ilow) # map entry_key ?tail)"
      using in0_ne by (intro sorted_last_append) simp_all
    then have srt': "sorted_wrt (<) (entry_key (entry (last ?low)) # map entry_key ?tail)"
      unfolding key0 .
    have es: "?es = [] @ ?es" by simp
    have chain: "successively (steps idx) (?low @ blocks idx h ?P (length ([] :: Entry list)) ?es)
      \<and> (\<exists>y. cursor_next idx (last (?low @ blocks idx h ?P (length ([] :: Entry list)) ?es)) =
            leave (?P @ [y])
              (entry_key (entry (last (?low @ blocks idx h ?P (length ([] :: Entry list)) ?es)))))
      \<and> (\<forall>e\<in>set ?es.
            entry_key e < entry_key (entry (last (?low @ blocks idx h ?P (length ([] :: Entry list)) ?es))))"
      using False cnt(2) es kids ne0
    proof (rule blocks_chain)
      show "successively (steps idx) ?low"
        using c0 by (simp add: covers_def)
      show "cursor_next idx (last ?low) = leave (?P @ [q0]) (entry_key (entry (last ?low)))"
        using c0 by (simp add: covers_def)
      show "\<forall>e\<in>set []. entry_key e < entry_key (entry (last ?low))"
        by simp
      show "sorted_wrt (<) (entry_key (entry (last ?low)) # map entry_key ?tail)"
        by (fact srt')
    qed
    let ?cs = "cursors idx (Suc h) pth n"
    have cs: "?cs = ?low @ blocks idx h ?P (length ([] :: Entry list)) ?es"
      by (simp only: cur list.size)
    from chain have a: "successively (steps idx) ?cs"
      and b: "\<exists>y. cursor_next idx (last ?cs) = leave (?P @ [y]) (entry_key (entry (last ?cs)))"
      and c: "\<forall>e\<in>set ?es. entry_key e < entry_key (entry (last ?cs))"
      unfolding cs by blast+
    have "find_index p (entry_key (entry (last ?cs))) = Inl KeyError"
      unfolding find_index_branch_page [OF False cnt(2)]
      using c by (rule find_index_branch_all_less)
    then have "leave (?P @ [y]) (entry_key (entry (last ?cs))) = leave ?P (entry_key (entry (last ?cs)))"
      for y
      by (intro leave_skip) simp_all
    with b have d: "cursor_next idx (last ?cs) = leave ?P (entry_key (entry (last ?cs)))"
      by auto
    have "get_page idx (ppointer p) = Inr q0"
      using q0 by (simp add: get_page_def)
    then have "enter idx pth p = enter idx ?P q0"
      using False by (intro enter_branch)
    also have "\<dots> = Some (Inr (hd ?low))"
      using c0 by (simp add: covers_def)
    also have "hd ?low = hd ?cs"
      using ne0 unfolding cs by simp
    finally have e: "enter idx pth p = Some (Inr (hd ?cs))" .
    from a d e show ?thesis
      unfolding covers_def by blast
  qed
qed

subsection \<open>From the least key to the end\<close>

lemma find_min:
  assumes "subtree_ok idx h n" "sorted_wrt (<) (map entry_key (inorder idx h n))"
  shows "find_from EXACT_MATCH idx pth n (entry_key (hd (inorder idx h n))) =
           Some (Inr (hd (cursors idx h pth n)))"
  using assms
proof (induction h arbitrary: pth n)
  case 0
  then show ?case by simp
next
  case (Suc h)
  from Suc.prems(1) obtain p where p: "pages idx n = Some p" "0 < entry_count p"
    "entry_count p \<le> length (contents p)"
    by (auto split: option.splits)
  let ?P = "pth @ [p]"
  let ?es = "entries_of p"
  have gp: "get_page idx n = Inr p" using p(1) by (simp add: get_page_def)
  have len: "length ?es = entry_count p" using p(3) by (rule length_entries_of)
  with p(2) obtain e0 rest where es: "?es = e0 # rest"
    by (cases ?es) auto
  have ge0: "get_entry p 0 = Inr e0"
    using get_entry_nth [OF p(3) p(2)] es by simp
  show ?case
  proof (cases "is_leaf p")
    case True
    let ?k = "entry_key e0"
    have "find_index p ?k = Inr 0"
      using True p(3) es by (simp add: find_index_def get_entries_def load_entries_ok)
    then have "exact_step p ?k = Inr (Found e0 0)"
      using ge0 by (simp add: exact_step_def locate_def)
    then have "find_from EXACT_MATCH idx pth n ?k =
        Some (Inr \<lparr>path = ?P, entry = e0, entry_number = 0\<rparr>)"
      using gp by (subst find_from.simps) simp
    with True p(1) es show ?thesis
      by (simp add: at_def)
  next
    case False
    let ?ilow = "inorder idx h (ppointer p)"
    let ?tail = "concat (map (\<lambda>e. e # inorder idx h (the_page e)) ?es)"
    let ?k = "entry_key (hd ?ilow)"
    from Suc.prems(1) p(1) False have ok0: "subtree_ok idx h (ppointer p)"
      by auto
    have ne: "?ilow \<noteq> []" using ok0 by (rule inorder_nonempty)
    have ino: "inorder idx (Suc h) n = ?ilow @ ?tail"
      using p(1) False by simp
    have srt: "sorted_wrt (<) (map entry_key ?ilow @ map entry_key ?tail)"
      using Suc.prems(2) unfolding ino by simp
    have "hd ?ilow \<in> set ?ilow" using ne by simp
    moreover have "e0 \<in> set ?tail" using es by simp
    ultimately have lt: "?k < entry_key e0"
      using srt by (auto simp: sorted_wrt_append)
    have "find_index p ?k = Inr 0"
      using False p(3) es lt
      by (simp add: find_index_def get_entries_def load_entries_ok)
    then have "exact_step p ?k = Inr (Descend (ppointer p))"
      using ge0 lt False by (simp add: exact_step_def locate_def)
    then have "find_from EXACT_MATCH idx pth n ?k =
        find_from EXACT_MATCH idx ?P (ppointer p) ?k"
      using gp by (subst find_from.simps) simp
    also have "\<dots> = Some (Inr (hd (cursors idx h ?P (ppointer p))))"
      using ok0 srt by (intro Suc.IH) (simp_all add: sorted_wrt_append)
    finally show ?thesis
      using p(1) False ne cursors_nonempty [OF ok0, of ?P] by (simp add: ino)
  qed
qed

lemma next_n_snoc:
  "next_n idx (Suc k) c =
     (case next_n idx k c of
        None \<Rightarrow> None
      | Some (Inl e) \<Rightarrow> Some (Inl e)
      | Some (Inr c') \<Rightarrow> cursor_next idx c')"
proof (induction k arbitrary: c)
  case 0
  show ?case by (simp split: option.splits sum.splits)
next
  case (Suc k)
  show ?case
  proof (cases "cursor_next idx c")
    case None
    then show ?thesis by simp
  next
    case (Some r)
    show ?thesis
    proof (cases r)
      case (Inl e)
      with Some show ?thesis by simp
    next
      case (Inr c1)
      with Some have unfold: "next_n idx (Suc j) c = next_n idx j c1" for j
        by simp
      show ?thesis
        unfolding unfold [of "Suc k"] unfold [of k] by (rule Suc.IH)
    qed
  qed
qed

lemma next_n_chain:
  assumes "successively (steps idx) cs" "k < length cs"
  shows "next_n idx k (hd cs) = Some (Inr (cs ! k))"
  using assms(2)
proof (induction k)
  case 0
  then show ?case by (simp add: hd_conv_nth)
next
  case (Suc k)
  then have "next_n idx k (hd cs) = Some (Inr (cs ! k))" by simp
  moreover have "steps idx (cs ! k) (cs ! Suc k)"
    using assms(1) Suc.prems by (simp add: successively_nth)
  ultimately show ?case
    by (simp add: next_n_snoc del: next_n.simps)
qed


text \<open>
  C6. In a well-formed B-tree holding \<open>record_count\<close> keys, \<^verbatim>\<open>find(min_key)\<close> returns a
  cursor \<open>c0\<close>, and for every \<open>k < record_count\<close> calling \<^verbatim>\<open>next()\<close> \<open>k\<close> times from
  \<open>c0\<close> succeeds and leaves the cursor at the \<open>k\<close>-th key of the tree in order; these
  keys are all the keys of the index, strictly ascending, so \<open>record_count - 1\<close> calls
  visit every key exactly once. The call after that, the \<open>record_count\<close>-th, raises
  \<^verbatim>\<open>IndexError\<close>. The descents inside \<^verbatim>\<open>find\<close> and \<^verbatim>\<open>next\<close> return on such a tree
  (the results are \<open>Some\<close>).
\<close>

theorem next_visits_all_keys:
  assumes "well_formed idx h"
  shows "\<exists>c0. find idx (hd (tree_keys idx h)) EXACT_MATCH = Some (Inr c0)
    \<and> (\<forall>k<record_count idx.
          \<exists>c. next_n idx k c0 = Some (Inr c) \<and> entry_key (entry c) = tree_keys idx h ! k)
    \<and> next_n idx (record_count idx) c0 = Some (Inl IndexError)
    \<and> length (tree_keys idx h) = record_count idx
    \<and> sorted_wrt (<) (tree_keys idx h)"
proof -
  let ?r = "root_page idx"
  let ?cs = "cursors idx h [] ?r"
  let ?io = "inorder idx h ?r"
  from assms have ok: "subtree_ok idx h ?r"
    and srt: "sorted_wrt (<) (map entry_key ?io)"
    and cnt: "record_count idx = length ?io"
    by (simp_all add: well_formed_def)
  from ok obtain p where p: "pages idx ?r = Some p"
    using subtree_ok_page by blast
  have cov: "covers idx h [] ?r p"
    using ok srt p by (rule covers_tree)
  have ne: "?io \<noteq> []" using ok by (rule inorder_nonempty)
  have ents: "map entry ?cs = ?io" by (rule entries_cursors)
  then have len: "length ?cs = length ?io"
    by (metis length_map)
  have cne: "?cs \<noteq> []" using ok by (rule cursors_nonempty)
  have chain: "successively (steps idx) ?cs"
    using cov by (simp add: covers_def)
  have "hd (tree_keys idx h) = entry_key (hd ?io)"
    using ne by (simp add: tree_keys_def hd_map)
  then have start: "find idx (hd (tree_keys idx h)) EXACT_MATCH = Some (Inr (hd ?cs))"
    using find_min [OF ok srt, of "[]"] by (simp add: find_def)
  have visit: "\<exists>c. next_n idx k (hd ?cs) = Some (Inr c) \<and> entry_key (entry c) = tree_keys idx h ! k"
    if "k < record_count idx" for k
  proof -
    from that have k: "k < length ?cs" using cnt len by simp
    have "entry (?cs ! k) = ?io ! k"
      using k ents by (metis nth_map)
    then have "entry_key (entry (?cs ! k)) = tree_keys idx h ! k"
      using k len by (simp add: tree_keys_def)
    with next_n_chain [OF chain k] show ?thesis by blast
  qed
  obtain m where m: "length ?cs = Suc m"
    using cne by (cases ?cs) auto
  have "last ?cs = ?cs ! m"
    using cne m by (simp add: last_conv_nth)
  then have "next_n idx m (hd ?cs) = Some (Inr (last ?cs))"
    using next_n_chain [OF chain, of m] m by simp
  moreover have "cursor_next idx (last ?cs) = Some (Inl IndexError)"
    using cov by (simp add: covers_def leave_def ascend_single)
  ultimately have "next_n idx (Suc m) (hd ?cs) = Some (Inl IndexError)"
    by (simp add: next_n_snoc del: next_n.simps)
  then have stop: "next_n idx (record_count idx) (hd ?cs) = Some (Inl IndexError)"
    using m cnt len by simp
  have "length (tree_keys idx h) = record_count idx" "sorted_wrt (<) (tree_keys idx h)"
    using cnt srt by (simp_all add: tree_keys_def)
  with start visit stop show ?thesis by blast
qed

subsection \<open>The tree with three levels\<close>

lemma three_level_pages:
  "root_page three_level = Suc 0" "record_count three_level = 8"
  "pages three_level (Suc 0) = Some root3" "pages three_level 2 = Some mid_b"
  "pages three_level 3 = Some mid_f" "pages three_level 4 = Some leaf_a_ab"
  "pages three_level 5 = Some leaf_c" "pages three_level 6 = Some leaf_e"
  "pages three_level 7 = Some leaf_g"
  by (simp_all add: three_level_def)

lemma three_level_kinds:
  "\<not> is_leaf root3" "\<not> is_leaf mid_b" "\<not> is_leaf mid_f"
  "is_leaf leaf_a_ab" "is_leaf leaf_c" "is_leaf leaf_e" "is_leaf leaf_g"
  "ppointer root3 = 2" "ppointer mid_b = 4" "ppointer mid_f = 6"
  by (simp_all add: is_leaf_def root3_def mid_b_def mid_f_def leaf_a_ab_def leaf_c_def leaf_e_def
      leaf_g_def branch_page_def leaf_page_def)

lemma three_level_counts:
  "entry_count root3 = Suc 0" "entry_count mid_b = Suc 0" "entry_count mid_f = Suc 0"
  "entry_count leaf_a_ab = 2" "entry_count leaf_c = Suc 0" "entry_count leaf_e = Suc 0"
  "entry_count leaf_g = Suc 0"
  "length (contents root3) = Suc 0" "length (contents mid_b) = Suc 0"
  "length (contents mid_f) = Suc 0" "length (contents leaf_a_ab) = 2"
  "length (contents leaf_c) = Suc 0" "length (contents leaf_e) = Suc 0"
  "length (contents leaf_g) = Suc 0"
  by (simp_all add: root3_def mid_b_def mid_f_def leaf_a_ab_def leaf_c_def leaf_e_def
      leaf_g_def branch_page_def leaf_page_def)

lemma three_level_entries:
  "load_entries root3 = Inr [BranchEntry 3 [0x64] [0x34]]"
  "load_entries mid_b = Inr [BranchEntry 5 [0x62] [0x32]]"
  "load_entries mid_f = Inr [BranchEntry 7 [0x66] [0x36]]"
  "load_entries leaf_a_ab = Inr [LeafEntry [0x61] [0x31], LeafEntry [0x61, 0x62] [0x31]]"
  "load_entries leaf_c = Inr [LeafEntry [0x63] [0x33]]"
  "load_entries leaf_e = Inr [LeafEntry [0x65] [0x35]]"
  "load_entries leaf_g = Inr [LeafEntry [0x67] [0x37]]"
  by (simp_all add: load_entries_def root3_def mid_b_def mid_f_def leaf_a_ab_def leaf_c_def
      leaf_e_def leaf_g_def branch_page_def leaf_page_def branch_slot_def leaf_slot_def
      is_leaf_def Let_def)

lemma three_level_inorder:
  "inorder three_level 3 (root_page three_level) =
     [LeafEntry [0x61] [0x31], LeafEntry [0x61, 0x62] [0x31], BranchEntry 5 [0x62] [0x32],
      LeafEntry [0x63] [0x33], BranchEntry 3 [0x64] [0x34], LeafEntry [0x65] [0x35],
      BranchEntry 7 [0x66] [0x36], LeafEntry [0x67] [0x37]]"
proof -
  have "inorder three_level (Suc (Suc (Suc 0))) (Suc 0) =
     [LeafEntry [0x61] [0x31], LeafEntry [0x61, 0x62] [0x31], BranchEntry 5 [0x62] [0x32],
      LeafEntry [0x63] [0x33], BranchEntry 3 [0x64] [0x34], LeafEntry [0x65] [0x35],
      BranchEntry 7 [0x66] [0x36], LeafEntry [0x67] [0x37]]"
    by (simp add: three_level_pages three_level_kinds three_level_entries entries_of_def)
  then show ?thesis
    by (simp add: three_level_pages(1) numeral_3_eq_3)
qed

lemma three_level_well_formed: "well_formed three_level 3"
proof -
  have "subtree_ok three_level (Suc (Suc (Suc 0))) (Suc 0)"
    by (simp add: three_level_pages three_level_kinds three_level_counts
        three_level_entries entries_of_def)
  then have "subtree_ok three_level 3 (root_page three_level)"
    by (simp add: three_level_pages(1) numeral_3_eq_3)
  then show ?thesis
    by (simp add: well_formed_def three_level_inorder three_level_pages(2))
qed

lemma three_level_find:
  "find three_level [0x61] EXACT_MATCH =
     Some (Inr \<lparr>path = [root3, mid_b, leaf_a_ab], entry = LeafEntry [0x61] [0x31], entry_number = 0\<rparr>)"
  by (simp add: find_def find_from.simps get_page_def three_level_pages
      exact_step_def locate_def find_index_def get_entries_def get_entry_def three_level_entries
      three_level_kinds py_index_def entry_page_at_def Let_def)


theorem next_visits_all_keys_witness:
  "well_formed three_level 3
   \<and> tree_keys three_level 3 =
       [[0x61], [0x61, 0x62], [0x62], [0x63], [0x64], [0x65], [0x66], [0x67]]
   \<and> find three_level [0x61] EXACT_MATCH =
       Some (Inr \<lparr>path = [root3, mid_b, leaf_a_ab], entry = LeafEntry [0x61] [0x31],
                   entry_number = 0\<rparr>)
   \<and> (\<exists>c. next_n three_level 3
             \<lparr>path = [root3, mid_b, leaf_a_ab], entry = LeafEntry [0x61] [0x31],
                entry_number = 0\<rparr> = Some (Inr c) \<and> entry_key (entry c) = [0x63])
   \<and> (\<exists>c. next_n three_level 7
             \<lparr>path = [root3, mid_b, leaf_a_ab], entry = LeafEntry [0x61] [0x31],
                entry_number = 0\<rparr> = Some (Inr c) \<and> entry_key (entry c) = [0x67])
   \<and> next_n three_level 8
        \<lparr>path = [root3, mid_b, leaf_a_ab], entry = LeafEntry [0x61] [0x31], entry_number = 0\<rparr>
      = Some (Inl IndexError)"
proof -
  let ?c0 = "\<lparr>path = [root3, mid_b, leaf_a_ab], entry = LeafEntry [0x61] [0x31],
               entry_number = 0\<rparr>"
  have keys: "tree_keys three_level 3 =
       [[0x61], [0x61, 0x62], [0x62], [0x63], [0x64], [0x65], [0x66], [0x67]]"
    by (simp add: tree_keys_def three_level_inorder)
  from next_visits_all_keys [OF three_level_well_formed]
  obtain c0 where c0: "find three_level (hd (tree_keys three_level 3)) EXACT_MATCH = Some (Inr c0)"
    and visit: "\<forall>k<record_count three_level.
          \<exists>c. next_n three_level k c0 = Some (Inr c)
            \<and> entry_key (entry c) = tree_keys three_level 3 ! k"
    and stop: "next_n three_level (record_count three_level) c0 = Some (Inl IndexError)"
    by blast
  from c0 have eq: "c0 = ?c0"
    by (simp add: keys three_level_find)
  from visit [rule_format, of 3] visit [rule_format, of 7] stop
  show ?thesis
    unfolding eq by (simp add: keys three_level_pages three_level_find three_level_well_formed)
qed

end
